theory Spec2Isabelle
  imports Complex_Main
begin

section \<open>Page replacement simulation (new.py)\<close>

text \<open>
  The three simulation functions of \<^verbatim>\<open>new.py\<close> are embedded as HOL functions. A page is an
  opaque token (type \<open>'a\<close>; the program passes strings or integers), the number of frames is a
  Python integer (\<open>int\<close>), and the lists of the program are HOL lists. A Python exception is a
  value of type \<open>error\<close>, returned as \<open>Inl\<close>. The two readings of \<^verbatim>\<open>time.time()\<close> are inputs
  of the model (\<open>clock\<close>), since they come from the environment.
\<close>

subsection \<open>Data\<close>

datatype error = IndexError | ValueError | KeyError

text \<open>The local variables of a simulation loop.\<close>

record 'a mem_state =
  physical_memory :: "'a list"
  page_faults :: nat
  movements :: "'a list list"
  iterations :: nat

text \<open>The LRU loop has one more variable, the dictionary \<^verbatim>\<open>page_indices\<close>.\<close>

record 'a lru_state = "'a mem_state" +
  page_indices :: "'a \<Rightarrow> nat option"

text \<open>The returned tuple \<^verbatim>\<open>(page_faults, physical_memory, movements, run_time, iterations)\<close>.\<close>

record 'a report = "'a mem_state" +
  run_time :: real

datatype policy = FIFO | LRU | Optimal

subsection \<open>List operations of Python\<close>

text \<open>\<^verbatim>\<open>xs.pop(0)\<close>: IndexError on the empty list; the popped element is not used.\<close>

definition list_pop0 :: "'a list \<Rightarrow> error + 'a list" where
  "list_pop0 xs = (case xs of [] \<Rightarrow> Inl IndexError | x # rest \<Rightarrow> Inr rest)"

text \<open>\<^verbatim>\<open>xs.remove(x)\<close>: removes the first occurrence, ValueError when there is none.\<close>

definition list_remove :: "'a \<Rightarrow> 'a list \<Rightarrow> error + 'a list" where
  "list_remove x xs = (if x \<in> set xs then Inr (remove1 x xs) else Inl ValueError)"

text \<open>\<^verbatim>\<open>xs.index(x)\<close>, the first position of \<open>x\<close>; the program calls it only when \<open>x\<close> is in \<open>xs\<close>.\<close>

fun index_of :: "'a list \<Rightarrow> 'a \<Rightarrow> nat" where
  "index_of [] x = 0"
| "index_of (y # ys) x = (if y = x then 0 else Suc (index_of ys x))"

text \<open>
  \<^verbatim>\<open>min(xs, key=lambda p: d[p])\<close>: ValueError on the empty list, KeyError when an element is not
  a key of \<open>d\<close>; otherwise the first element whose key is minimal (a later element replaces
  the current one only when its key is strictly smaller).
\<close>

fun min_by_key :: "('a \<Rightarrow> nat) \<Rightarrow> 'a \<Rightarrow> 'a list \<Rightarrow> 'a" where
  "min_by_key key best [] = best"
| "min_by_key key best (x # xs) = min_by_key key (if key x < key best then x else best) xs"

definition py_min :: "'a list \<Rightarrow> ('a \<Rightarrow> nat option) \<Rightarrow> error + 'a" where
  "py_min xs d =
     (case xs of
        [] \<Rightarrow> Inl ValueError
      | x # rest \<Rightarrow>
          if list_ex (\<lambda>p. d p = None) xs then Inl KeyError
          else Inr (min_by_key (\<lambda>p. the (d p)) x rest))"

text \<open>A \<^verbatim>\<open>for\<close> loop over a list whose body may raise: the first exception ends the loop.\<close>

fun for_each :: "('s \<Rightarrow> 'x \<Rightarrow> error + 's) \<Rightarrow> 's \<Rightarrow> 'x list \<Rightarrow> error + 's" where
  "for_each body s [] = Inr s"
| "for_each body s (x # xs) =
     (case body s x of Inl e \<Rightarrow> Inl e | Inr s' \<Rightarrow> for_each body s' xs)"

text \<open>\<^verbatim>\<open>movements.append(physical_memory.copy())\<close>, the last statement of each loop body.\<close>

definition snapshot :: "('a, 'z) mem_state_scheme \<Rightarrow> ('a, 'z) mem_state_scheme" where
  "snapshot s = s\<lparr>movements := movements s @ [physical_memory s]\<rparr>"

definition make_report :: "real \<times> real \<Rightarrow> ('a, 'z) mem_state_scheme \<Rightarrow> 'a report" where
  "make_report clock s =
     \<lparr>physical_memory = physical_memory s, page_faults = page_faults s,
      movements = movements s, iterations = iterations s,
      run_time = snd clock - fst clock\<rparr>"

subsection \<open>FIFO\<close>

definition fifo_step :: "int \<Rightarrow> 'a mem_state \<Rightarrow> 'a \<Rightarrow> error + 'a mem_state" where
  "fifo_step frames s0 page =
     (let s = s0\<lparr>iterations := iterations s0 + 1\<rparr> in
      if page \<notin> set (physical_memory s) then
        (if int (length (physical_memory s)) < frames then
           Inr (snapshot (s\<lparr>physical_memory := physical_memory s @ [page],
                           page_faults := page_faults s + 1\<rparr>))
         else
           (case list_pop0 (physical_memory s) of
              Inl e \<Rightarrow> Inl e
            | Inr rest \<Rightarrow>
                Inr (snapshot (s\<lparr>physical_memory := rest @ [page],
                                page_faults := page_faults s + 1\<rparr>))))
      else Inr (snapshot s))"

definition fifo_init :: "'a mem_state" where
  "fifo_init = \<lparr>physical_memory = [], page_faults = 0, movements = [], iterations = 0\<rparr>"

definition fifo_page_replacement :: "real \<times> real \<Rightarrow> 'a list \<Rightarrow> int \<Rightarrow> error + 'a report" where
  "fifo_page_replacement clock pages frames =
     (case for_each (fifo_step frames) fifo_init pages of
        Inl e \<Rightarrow> Inl e
      | Inr s \<Rightarrow> Inr (make_report clock s))"

subsection \<open>LRU\<close>

definition lru_step :: "int \<Rightarrow> 'a lru_state \<Rightarrow> nat \<times> 'a \<Rightarrow> error + 'a lru_state" where
  "lru_step frames s0 ip =
     (let i = fst ip; page = snd ip;
          s = s0\<lparr>iterations := iterations s0 + 1\<rparr>;
          finish = (\<lambda>s'. snapshot (s'\<lparr>page_indices := (page_indices s')(page \<mapsto> i)\<rparr>))
      in
      if page \<notin> set (physical_memory s) then
        (if int (length (physical_memory s)) < frames then
           Inr (finish (s\<lparr>physical_memory := physical_memory s @ [page],
                         page_faults := page_faults s + 1\<rparr>))
         else
           (case py_min (physical_memory s) (page_indices s) of
              Inl e \<Rightarrow> Inl e
            | Inr lru_page \<Rightarrow>
                (case list_remove lru_page (physical_memory s) of
                   Inl e \<Rightarrow> Inl e
                 | Inr rest \<Rightarrow>
                     Inr (finish (s\<lparr>physical_memory := rest @ [page],
                                   page_faults := page_faults s + 1\<rparr>)))))
      else
        (case list_remove page (physical_memory s) of
           Inl e \<Rightarrow> Inl e
         | Inr rest \<Rightarrow> Inr (finish (s\<lparr>physical_memory := rest @ [page]\<rparr>))))"

definition lru_init :: "'a lru_state" where
  "lru_init = \<lparr>physical_memory = [], page_faults = 0, movements = [], iterations = 0,
               page_indices = Map.empty\<rparr>"

definition lru_page_replacement :: "real \<times> real \<Rightarrow> 'a list \<Rightarrow> int \<Rightarrow> error + 'a report" where
  "lru_page_replacement clock pages frames =
     (case for_each (lru_step frames) lru_init (enumerate 0 pages) of
        Inl e \<Rightarrow> Inl e
      | Inr s \<Rightarrow> Inr (make_report clock s))"

subsection \<open>Optimal\<close>

text \<open>
  The inner loop over \<^verbatim>\<open>physical_memory\<close> that chooses \<^verbatim>\<open>page_to_replace\<close>; the
  \<^verbatim>\<open>break\<close> returns at once. \<^verbatim>\<open>farthest_index\<close> starts at \<open>-1\<close>, \<^verbatim>\<open>page_to_replace\<close> at
  \<^verbatim>\<open>None\<close>.
\<close>

fun choose_victim :: "'a list \<Rightarrow> int \<Rightarrow> 'a option \<Rightarrow> 'a list \<Rightarrow> 'a option" where
  "choose_victim future_pages farthest_index page_to_replace [] = page_to_replace"
| "choose_victim future_pages farthest_index page_to_replace (f # fs) =
     (if f \<notin> set future_pages then Some f
      else
        (let index = int (index_of future_pages f) in
         if index > farthest_index then choose_victim future_pages index (Some f) fs
         else choose_victim future_pages farthest_index page_to_replace fs))"

text \<open>
  \<^verbatim>\<open>physical_memory.remove(page_to_replace)\<close>: when \<^verbatim>\<open>page_to_replace\<close> is still \<^verbatim>\<open>None\<close>
  it is not in the list of pages and the call raises ValueError.
\<close>

definition optimal_step :: "int \<Rightarrow> 'a list \<Rightarrow> 'a mem_state \<Rightarrow> nat \<times> 'a \<Rightarrow> error + 'a mem_state" where
  "optimal_step frames pages s0 ip =
     (let i = fst ip; page = snd ip;
          s = s0\<lparr>iterations := iterations s0 + 1\<rparr>
      in
      if page \<notin> set (physical_memory s) then
        (if int (length (physical_memory s)) < frames then
           Inr (snapshot (s\<lparr>physical_memory := physical_memory s @ [page],
                           page_faults := page_faults s + 1\<rparr>))
         else
           (let future_pages = drop (i + 1) pages in
            case choose_victim future_pages (- 1) None (physical_memory s) of
              None \<Rightarrow> Inl ValueError
            | Some page_to_replace \<Rightarrow>
                (case list_remove page_to_replace (physical_memory s) of
                   Inl e \<Rightarrow> Inl e
                 | Inr rest \<Rightarrow>
                     Inr (snapshot (s\<lparr>physical_memory := rest @ [page],
                                     page_faults := page_faults s + 1\<rparr>)))))
      else Inr (snapshot s))"

definition optimal_page_replacement :: "real \<times> real \<Rightarrow> 'a list \<Rightarrow> int \<Rightarrow> error + 'a report" where
  "optimal_page_replacement clock pages frames =
     (case for_each (optimal_step frames pages) fifo_init (enumerate 0 pages) of
        Inl e \<Rightarrow> Inl e
      | Inr s \<Rightarrow> Inr (make_report clock s))"

subsection \<open>Choosing the algorithm\<close>

text \<open>
  The dispatch of \<^verbatim>\<open>on_submit\<close>; the option menu offers exactly the three names
  \<^verbatim>\<open>"FIFO"\<close>, \<^verbatim>\<open>"LRU"\<close> and \<^verbatim>\<open>"Optimal"\<close>.
\<close>

fun simulate :: "policy \<Rightarrow> real \<times> real \<Rightarrow> 'a list \<Rightarrow> int \<Rightarrow> error + 'a report" where
  "simulate FIFO clock pages frames = fifo_page_replacement clock pages frames"
| "simulate LRU clock pages frames = lru_page_replacement clock pages frames"
| "simulate Optimal clock pages frames = optimal_page_replacement clock pages frames"

section \<open>Notions used to state the properties\<close>

text \<open>The loop variables after the first \<open>i\<close> iterations of each simulation loop.\<close>

definition fifo_state_at :: "'a list \<Rightarrow> int \<Rightarrow> nat \<Rightarrow> error + 'a mem_state" where
  "fifo_state_at pages frames i = for_each (fifo_step frames) fifo_init (take i pages)"

definition lru_state_at :: "'a list \<Rightarrow> int \<Rightarrow> nat \<Rightarrow> error + 'a lru_state" where
  "lru_state_at pages frames i =
     for_each (lru_step frames) lru_init (take i (enumerate 0 pages))"

definition optimal_state_at :: "'a list \<Rightarrow> int \<Rightarrow> nat \<Rightarrow> error + 'a mem_state" where
  "optimal_state_at pages frames i =
     for_each (optimal_step frames pages) fifo_init (take i (enumerate 0 pages))"

fun state_at :: "policy \<Rightarrow> 'a list \<Rightarrow> int \<Rightarrow> nat \<Rightarrow> error + 'a mem_state" where
  "state_at FIFO pages frames i = fifo_state_at pages frames i"
| "state_at LRU pages frames i = map_sum id mem_state.truncate (lru_state_at pages frames i)"
| "state_at Optimal pages frames i = optimal_state_at pages frames i"

text \<open>
  A sequence of snapshots is demand paged with \<open>k\<close> frames when every snapshot holds the
  page just referenced, brings in no other page, has no duplicates and at most \<open>k\<close> pages.
\<close>

fun demand_paged :: "nat \<Rightarrow> 'a list \<Rightarrow> 'a list \<Rightarrow> 'a list list \<Rightarrow> bool" where
  "demand_paged k M [] snaps = (snaps = [])"
| "demand_paged k M (p # ps) [] = False"
| "demand_paged k M (p # ps) (M' # snaps) =
     (p \<in> set M' \<and> set M' \<subseteq> insert p (set M) \<and> distinct M' \<and> length M' \<le> k \<and>
      demand_paged k M' ps snaps)"

text \<open>The references that find their page absent from the frames left by the step before.\<close>

fun misses :: "'a list \<Rightarrow> 'a list \<Rightarrow> 'a list list \<Rightarrow> nat" where
  "misses M (p # ps) (M' # snaps) = (if p \<in> set M then 0 else 1) + misses M' ps snaps"
| "misses M ps snaps = 0"

text \<open>What one iteration of any of the three loops does to the shared loop variables.\<close>

definition good_step ::
  "nat \<Rightarrow> ('a, 'z) mem_state_scheme \<Rightarrow> 'a \<Rightarrow> ('a, 'z) mem_state_scheme \<Rightarrow> bool" where
  "good_step k s p s' =
     (p \<in> set (physical_memory s') \<and>
      set (physical_memory s') \<subseteq> insert p (set (physical_memory s)) \<and>
      distinct (physical_memory s') \<and> length (physical_memory s') \<le> k \<and>
      movements s' = movements s @ [physical_memory s'] \<and>
      page_faults s' = page_faults s + (if p \<in> set (physical_memory s) then 0 else 1) \<and>
      iterations s' = iterations s + 1)"

text \<open>The frames of the Optimal loop after a reference to \<open>p\<close>, with \<open>future\<close> still to come.\<close>

definition opt_next :: "int \<Rightarrow> 'a list \<Rightarrow> 'a \<Rightarrow> 'a list \<Rightarrow> 'a list" where
  "opt_next frames M p future =
     (if p \<in> set M then M
      else if int (length M) < frames then M @ [p]
      else remove1 (the (choose_victim future (- 1) None M)) M @ [p])"

fun opt_snaps :: "int \<Rightarrow> 'a list \<Rightarrow> 'a list \<Rightarrow> 'a list list" where
  "opt_snaps frames M [] = []"
| "opt_snaps frames M (p # ps) =
     opt_next frames M p ps # opt_snaps frames (opt_next frames M p ps) ps"

text \<open>
  The invariant of the LRU loop before iteration \<open>i\<close>: the frames hold no page twice, the
  dictionary maps a page to its last position before \<open>i\<close>, every resident page is a key, and
  the frames are in increasing order of these positions.
\<close>

definition lru_inv :: "'a list \<Rightarrow> nat \<Rightarrow> nat \<Rightarrow> 'a lru_state \<Rightarrow> bool" where
  "lru_inv pages k i s =
     (distinct (physical_memory s) \<and> length (physical_memory s) \<le> k \<and>
      (\<forall>p j. page_indices s p = Some j \<longleftrightarrow>
         (j < i \<and> pages ! j = p \<and> (\<forall>j'. j < j' \<and> j' < i \<longrightarrow> pages ! j' \<noteq> p))) \<and>
      (\<forall>p \<in> set (physical_memory s). \<exists>j. page_indices s p = Some j) \<and>
      sorted_wrt (<) (map (\<lambda>p. the (page_indices s p)) (physical_memory s)))"

text \<open>
  The invariant of the FIFO and Optimal loops before iteration \<open>j\<close> (the same at every
  iteration): no page twice and at most \<open>k\<close> pages.
\<close>

definition mem_ok :: "nat \<Rightarrow> nat \<Rightarrow> ('a, 'z) mem_state_scheme \<Rightarrow> bool" where
  "mem_ok k j s = (distinct (physical_memory s) \<and> length (physical_memory s) \<le> k)"

section \<open>Lemmas about the loops\<close>

lemma for_each_append:
  "for_each body s (xs @ ys) =
     (case for_each body s xs of Inl e \<Rightarrow> Inl e | Inr s' \<Rightarrow> for_each body s' ys)"
  by (induction xs arbitrary: s) (auto split: sum.splits)

lemma for_each_snoc:
  "for_each body s xs = Inr s1 \<Longrightarrow> for_each body s (xs @ [x]) = body s1 x"
  by (simp add: for_each_append split: sum.splits)

lemma demand_paged_length: "demand_paged k M ps snaps \<Longrightarrow> length snaps = length ps"
  by (induction k M ps snaps rule: demand_paged.induct) auto

lemma for_each_run:
  fixes body :: "('a, 'z) mem_state_scheme \<Rightarrow> 'x \<Rightarrow> error + ('a, 'z) mem_state_scheme"
  assumes step: "\<And>j s. j < length xs \<Longrightarrow> Inv j s \<Longrightarrow>
      \<exists>s'. body s (xs ! j) = Inr s' \<and> good_step k s (pg (xs ! j)) s' \<and> Inv (Suc j) s'"
    and init: "Inv 0 s"
  shows "\<exists>s' snaps. for_each body s xs = Inr s' \<and> Inv (length xs) s' \<and>
      movements s' = movements s @ snaps \<and>
      demand_paged k (physical_memory s) (map pg xs) snaps \<and>
      page_faults s' = page_faults s + misses (physical_memory s) (map pg xs) snaps \<and>
      physical_memory s' = last (physical_memory s # snaps) \<and>
      iterations s' = iterations s + length xs"
  using step init
proof (induction xs arbitrary: s Inv)
  case Nil
  then show ?case by simp
next
  case (Cons x xs)
  from Cons.prems(1)[of 0 s] Cons.prems(2)
  obtain s1 where s1: "body s x = Inr s1" "good_step k s (pg x) s1" "Inv (Suc 0) s1"
    by auto
  have "\<exists>s' snaps. for_each body s1 xs = Inr s' \<and> Inv (Suc (length xs)) s' \<and>
      movements s' = movements s1 @ snaps \<and>
      demand_paged k (physical_memory s1) (map pg xs) snaps \<and>
      page_faults s' = page_faults s1 + misses (physical_memory s1) (map pg xs) snaps \<and>
      physical_memory s' = last (physical_memory s1 # snaps) \<and>
      iterations s' = iterations s1 + length xs"
  proof (rule Cons.IH[where Inv = "\<lambda>j. Inv (Suc j)"])
    fix j t assume "j < length xs" "Inv (Suc j) t"
    with Cons.prems(1)[of "Suc j" t]
    show "\<exists>s'. body t (xs ! j) = Inr s' \<and> good_step k t (pg (xs ! j)) s' \<and> Inv (Suc (Suc j)) s'"
      by simp
  next
    show "Inv (Suc 0) s1" by (rule s1(3))
  qed
  then obtain s' snaps where r: "for_each body s1 xs = Inr s'" "Inv (Suc (length xs)) s'"
      "movements s' = movements s1 @ snaps"
      "demand_paged k (physical_memory s1) (map pg xs) snaps"
      "page_faults s' = page_faults s1 + misses (physical_memory s1) (map pg xs) snaps"
      "physical_memory s' = last (physical_memory s1 # snaps)"
      "iterations s' = iterations s1 + length xs"
    by blast
  show ?case
    apply (rule exI[of _ s'])
    apply (rule exI[of _ "physical_memory s1 # snaps"])
    using s1 r by (simp add: good_step_def)
qed

text \<open>The same run, seen at iteration i.\<close>

lemma for_each_run_at:
  fixes body :: "('a, 'z) mem_state_scheme \<Rightarrow> 'x \<Rightarrow> error + ('a, 'z) mem_state_scheme"
  assumes step: "\<And>j s. j < length xs \<Longrightarrow> Inv j s \<Longrightarrow>
      \<exists>s'. body s (xs ! j) = Inr s' \<and> good_step k s (pg (xs ! j)) s' \<and> Inv (Suc j) s'"
    and init: "Inv 0 s"
    and i: "i < length xs"
  shows "\<exists>si si' s' snaps.
      for_each body s (take i xs) = Inr si \<and> Inv i si \<and>
      body si (xs ! i) = Inr si' \<and> good_step k si (pg (xs ! i)) si' \<and>
      for_each body s (take (Suc i) xs) = Inr si' \<and>
      for_each body s xs = Inr s' \<and>
      movements s' = movements s @ snaps \<and> length snaps = length xs \<and>
      physical_memory si = (physical_memory s # snaps) ! i \<and>
      physical_memory si' = snaps ! i"
proof -
  have "\<exists>s' snaps. for_each body s (take i xs) = Inr s' \<and> Inv (length (take i xs)) s' \<and>
      movements s' = movements s @ snaps \<and>
      demand_paged k (physical_memory s) (map pg (take i xs)) snaps \<and>
      page_faults s' = page_faults s + misses (physical_memory s) (map pg (take i xs)) snaps \<and>
      physical_memory s' = last (physical_memory s # snaps) \<and>
      iterations s' = iterations s + length (take i xs)"
  proof (rule for_each_run[where Inv = Inv])
    fix j t assume "j < length (take i xs)" "Inv j t"
    with step[of j t]
    show "\<exists>s'. body t (take i xs ! j) = Inr s' \<and> good_step k t (pg (take i xs ! j)) s' \<and>
        Inv (Suc j) s'"
      by simp
  qed (rule init)
  then obtain si snaps1 where a: "for_each body s (take i xs) = Inr si" "Inv i si"
      "movements si = movements s @ snaps1" "length snaps1 = i"
      "physical_memory si = last (physical_memory s # snaps1)"
    using i by (auto dest!: demand_paged_length simp: min_def)
  from step[OF i a(2)] obtain si' where
    b: "body si (xs ! i) = Inr si'" "good_step k si (pg (xs ! i)) si'" "Inv (Suc i) si'"
    by blast
  have c: "for_each body s (take (Suc i) xs) = Inr si'"
    using a(1) b(1) i by (simp add: take_Suc_conv_app_nth for_each_snoc)
  have "\<exists>s' snaps. for_each body si' (drop (Suc i) xs) = Inr s' \<and>
      Inv (Suc i + length (drop (Suc i) xs)) s' \<and>
      movements s' = movements si' @ snaps \<and>
      demand_paged k (physical_memory si') (map pg (drop (Suc i) xs)) snaps \<and>
      page_faults s' =
        page_faults si' + misses (physical_memory si') (map pg (drop (Suc i) xs)) snaps \<and>
      physical_memory s' = last (physical_memory si' # snaps) \<and>
      iterations s' = iterations si' + length (drop (Suc i) xs)"
  proof (rule for_each_run[where Inv = "\<lambda>j. Inv (Suc i + j)"])
    fix j t assume "j < length (drop (Suc i) xs)" "Inv (Suc i + j) t"
    with step[of "Suc i + j" t]
    show "\<exists>s'. body t (drop (Suc i) xs ! j) = Inr s' \<and>
        good_step k t (pg (drop (Suc i) xs ! j)) s' \<and> Inv (Suc i + Suc j) s'"
      by (simp add: add.commute)
  qed (use b(3) in simp)
  then obtain s' snaps2 where d: "for_each body si' (drop (Suc i) xs) = Inr s'"
      "movements s' = movements si' @ snaps2" "length snaps2 = length xs - Suc i"
    by (auto dest!: demand_paged_length)
  have e: "for_each body s xs = Inr s'"
    using for_each_append[of body s "take (Suc i) xs" "drop (Suc i) xs"] c d(1) by simp
  have f: "movements s' = movements s @ (snaps1 @ physical_memory si' # snaps2)"
    using d(2) a(3) b(2) by (simp add: good_step_def)
  have g: "(physical_memory s # snaps1 @ physical_memory si' # snaps2) ! i
      = last (physical_memory s # snaps1)"
    using a(4) by (cases snaps1 rule: rev_cases) (auto simp: nth_append)
  show ?thesis
    apply (rule exI[of _ si], rule exI[of _ si'], rule exI[of _ s'])
    apply (rule exI[of _ "snaps1 @ physical_memory si' # snaps2"])
    using a b c e f g d(3) i by (simp add: nth_append)
qed

subsection \<open>FIFO\<close>

lemma fifo_step_good:
  assumes "1 \<le> frames" "distinct (physical_memory s)" "length (physical_memory s) \<le> nat frames"
  shows "\<exists>s'. fifo_step frames s p = Inr s' \<and> good_step (nat frames) s p s' \<and>
     physical_memory s' =
       (if p \<in> set (physical_memory s) then physical_memory s
        else if int (length (physical_memory s)) < frames then physical_memory s @ [p]
        else tl (physical_memory s) @ [p])"
proof (cases "physical_memory s")
  case Nil
  with assms show ?thesis
    by (auto simp: fifo_step_def good_step_def snapshot_def)
next
  case (Cons x rest)
  with assms show ?thesis
    by (auto simp: fifo_step_def good_step_def snapshot_def list_pop0_def)
qed

subsection \<open>Optimal\<close>

lemma choose_victim_dead:
  "find (\<lambda>f. f \<notin> set fut) fs = Some v \<Longrightarrow> choose_victim fut fi ptr fs = Some v"
  by (induction fs arbitrary: fi ptr) (auto simp: Let_def)

lemma choose_victim_live:
  "set fs \<subseteq> set fut \<Longrightarrow>
     (choose_victim fut fi ptr fs = ptr \<and> (\<forall>q \<in> set fs. int (index_of fut q) \<le> fi)) \<or>
     (\<exists>v \<in> set fs. choose_victim fut fi ptr fs = Some v \<and> fi < int (index_of fut v) \<and>
        (\<forall>q \<in> set fs. index_of fut q \<le> index_of fut v))"
proof (induction fs arbitrary: fi ptr)
  case Nil
  then show ?case by simp
next
  case (Cons f fs)
  then have sub: "set fs \<subseteq> set fut" and f: "f \<in> set fut" by auto
  show ?case
  proof (cases "int (index_of fut f) > fi")
    case True
    from Cons.IH[OF sub, of "int (index_of fut f)" "Some f"] True f
    show ?thesis by (auto simp: Let_def)
  next
    case False
    from Cons.IH[OF sub, of fi ptr] False f
    show ?thesis by (auto simp: Let_def)
  qed
qed

lemma choose_victim_start:
  assumes "M \<noteq> []"
  shows "\<exists>v \<in> set M. choose_victim fut (- 1) None M = Some v \<and>
     (case find (\<lambda>f. f \<notin> set fut) M of
        Some d \<Rightarrow> v = d
      | None \<Rightarrow> set M \<subseteq> set fut \<and> (\<forall>q \<in> set M. index_of fut q \<le> index_of fut v))"
proof (cases "find (\<lambda>f. f \<notin> set fut) M")
  case None
  then have sub: "set M \<subseteq> set fut" by (auto simp: find_None_iff)
  from assms obtain q where "q \<in> set M" by (cases M) auto
  then have "\<not> (\<forall>q \<in> set M. int (index_of fut q) \<le> - 1)" by force
  with choose_victim_live[OF sub, of "- 1" None] None sub show ?thesis by auto
next
  case (Some d)
  then have "d \<in> set M" by (auto simp: find_Some_iff)
  with choose_victim_dead[OF Some, of "- 1" None] Some show ?thesis by auto
qed

lemma optimal_step_good:
  assumes "1 \<le> frames" "distinct (physical_memory s)" "length (physical_memory s) \<le> nat frames"
  shows "\<exists>s'. optimal_step frames pages s (i, p) = Inr s' \<and> good_step (nat frames) s p s' \<and>
     physical_memory s' = opt_next frames (physical_memory s) p (drop (Suc i) pages)"
proof (cases "p \<notin> set (physical_memory s) \<and> \<not> int (length (physical_memory s)) < frames")
  case False
  with assms show ?thesis
    by (auto simp: optimal_step_def good_step_def snapshot_def opt_next_def)
next
  case True
  with assms(1) have ne: "physical_memory s \<noteq> []" by auto
  from choose_victim_start[OF ne, of "drop (Suc i) pages"]
  obtain v where v: "v \<in> set (physical_memory s)"
      "choose_victim (drop (Suc i) pages) (- 1) None (physical_memory s) = Some v"
    by blast
  let ?M = "physical_memory s"
  let ?s' = "snapshot (s\<lparr>iterations := iterations s + 1,
      physical_memory := remove1 v ?M @ [p], page_faults := page_faults s + 1\<rparr>)"
  have step: "optimal_step frames pages s (i, p) = Inr ?s'"
    using True v by (simp add: optimal_step_def Let_def list_remove_def)
  have len: "length (remove1 v ?M) < length ?M"
    using v(1) ne by (simp add: length_remove1)
  have sub: "set (remove1 v ?M) \<subseteq> set ?M"
    by (rule set_remove1_subset)
  have nin: "p \<notin> set (remove1 v ?M)"
    using True sub by blast
  have good: "good_step (nat frames) s p ?s'"
    using True assms(2,3) len sub nin
    by (simp add: good_step_def snapshot_def) blast
  have nxt: "physical_memory ?s' = opt_next frames ?M p (drop (Suc i) pages)"
    using True v(2) by (simp add: opt_next_def snapshot_def)
  from step good nxt show ?thesis by blast
qed

subsection \<open>LRU\<close>

lemma min_by_key_first:
  "\<forall>y \<in> set xs. key best < key y \<Longrightarrow> min_by_key key best xs = best"
  by (induction xs) auto

lemma min_by_key_least:
  "min_by_key key best xs \<in> set (best # xs) \<and>
   (\<forall>q \<in> set (best # xs). key (min_by_key key best xs) \<le> key q)"
proof (induction xs arbitrary: best)
  case Nil
  show ?case by simp
next
  case (Cons x xs)
  from Cons[of "if key x < key best then x else best"]
  show ?case by (auto split: if_splits)
qed

lemma last_pos_update:
  assumes "\<forall>p j. idx p = Some j \<longleftrightarrow>
      (j < i \<and> pages ! j = p \<and> (\<forall>j'. j < j' \<and> j' < i \<longrightarrow> pages ! j' \<noteq> p))"
  shows "\<forall>p j. (idx(pages ! i \<mapsto> i)) p = Some j \<longleftrightarrow>
      (j < Suc i \<and> pages ! j = p \<and> (\<forall>j'. j < j' \<and> j' < Suc i \<longrightarrow> pages ! j' \<noteq> p))"
proof (intro allI)
  fix p j
  show "(idx(pages ! i \<mapsto> i)) p = Some j \<longleftrightarrow>
      (j < Suc i \<and> pages ! j = p \<and> (\<forall>j'. j < j' \<and> j' < Suc i \<longrightarrow> pages ! j' \<noteq> p))"
  proof (cases "p = pages ! i")
    case True
    have "j = i" if "j < Suc i" "\<forall>j'. j < j' \<and> j' < Suc i \<longrightarrow> pages ! j' \<noteq> p"
    proof (rule ccontr)
      assume "j \<noteq> i"
      with that(1) have "j < i" by simp
      with that(2) have "pages ! i \<noteq> p" by simp
      with True show False by simp
    qed
    with True show ?thesis by auto
  next
    case False
    have "j < i" if "j < Suc i" "pages ! j = p"
      using that False by (cases "j = i") auto
    with False assms show ?thesis
      by (auto simp: less_Suc_eq)
  qed
qed

lemma lru_inv_after:
  assumes inv: "lru_inv pages k i s"
    and mem: "physical_memory s' = rest @ [pages ! i]"
    and idx: "page_indices s' = (page_indices s)(pages ! i \<mapsto> i)"
    and rest: "set rest \<subseteq> set (physical_memory s)" "pages ! i \<notin> set rest" "distinct rest"
      "sorted_wrt (<) (map (\<lambda>p. the (page_indices s p)) rest)" "length rest < k"
  shows "lru_inv pages k (Suc i) s'"
proof -
  have lt: "the (page_indices s q) < i" if "q \<in> set rest" for q
  proof -
    from that rest(1) inv obtain j where "page_indices s q = Some j"
      unfolding lru_inv_def by blast
    moreover from this inv have "j < i" unfolding lru_inv_def by blast
    ultimately show ?thesis by simp
  qed
  have same: "map (\<lambda>p. the (((page_indices s)(pages ! i \<mapsto> i)) p)) rest
      = map (\<lambda>p. the (page_indices s p)) rest"
    using rest(2) by (intro map_cong) auto
  have sorted: "sorted_wrt (<) (map (\<lambda>p. the (page_indices s' p)) (physical_memory s'))"
    unfolding mem idx using rest(4) lt
    by (simp add: same sorted_wrt_append fun_upd_same del: fun_upd_apply)
  have keys: "\<forall>p \<in> set (physical_memory s'). \<exists>j. page_indices s' p = Some j"
    using rest(1) inv unfolding lru_inv_def by (auto simp: mem idx)
  have pos: "\<forall>p j. page_indices s' p = Some j \<longleftrightarrow>
      (j < Suc i \<and> pages ! j = p \<and> (\<forall>j'. j < j' \<and> j' < Suc i \<longrightarrow> pages ! j' \<noteq> p))"
    unfolding idx using inv unfolding lru_inv_def by (intro last_pos_update) blast
  show ?thesis
    unfolding lru_inv_def using sorted keys pos rest(2,3,5) by (simp add: mem)
qed

lemma sorted_wrt_remove1: "sorted_wrt P xs \<Longrightarrow> sorted_wrt P (remove1 x xs)"
  by (induction xs) (auto dest: notin_set_remove1)

lemma py_min_sorted:
  assumes "M \<noteq> []" "\<forall>p \<in> set M. \<exists>j. d p = Some j"
    "sorted_wrt (<) (map (\<lambda>p. the (d p)) M)"
  shows "py_min M d = Inr (hd M)"
proof (cases M)
  case Nil
  with assms(1) show ?thesis by simp
next
  case (Cons x xs)
  have "\<not> list_ex (\<lambda>p. d p = None) M"
    using assms(2) by (auto simp: list_ex_iff)
  moreover have "min_by_key (\<lambda>p. the (d p)) x xs = x"
    using assms(3) Cons by (intro min_by_key_first) auto
  ultimately show ?thesis using Cons by (simp add: py_min_def)
qed

lemma lru_step_good:
  assumes fr: "1 \<le> frames" and i: "i < length pages" and inv: "lru_inv pages (nat frames) i s"
  shows "\<exists>s'. lru_step frames s (i, pages ! i) = Inr s' \<and>
     good_step (nat frames) s (pages ! i) s' \<and> lru_inv pages (nat frames) (Suc i) s' \<and>
     physical_memory s' =
       (if pages ! i \<in> set (physical_memory s)
        then remove1 (pages ! i) (physical_memory s) @ [pages ! i]
        else if int (length (physical_memory s)) < frames then physical_memory s @ [pages ! i]
        else tl (physical_memory s) @ [pages ! i]) \<and>
     page_indices s' = (page_indices s)(pages ! i \<mapsto> i) \<and>
     (pages ! i \<notin> set (physical_memory s) \<and> \<not> int (length (physical_memory s)) < frames
        \<longrightarrow> py_min (physical_memory s) (page_indices s) = Inr (hd (physical_memory s)))"
proof -
  let ?M = "physical_memory s"
  let ?p = "pages ! i"
  let ?key = "\<lambda>p. the (page_indices s p)"
  from inv have dist: "distinct ?M" and len: "length ?M \<le> nat frames"
    and keys: "\<forall>p \<in> set ?M. \<exists>j. page_indices s p = Some j"
    and sorted: "sorted_wrt (<) (map ?key ?M)"
    unfolding lru_inv_def by blast+
  consider (hit) "?p \<in> set ?M"
    | (room) "?p \<notin> set ?M" "int (length ?M) < frames"
    | (full) "?p \<notin> set ?M" "\<not> int (length ?M) < frames"
    by blast
  then show ?thesis
  proof cases
    case hit
    let ?rest = "remove1 ?p ?M"
    let ?s' = "snapshot (s\<lparr>iterations := iterations s + 1, physical_memory := ?rest @ [?p],
        page_indices := (page_indices s)(?p \<mapsto> i)\<rparr>)"
    have step: "lru_step frames s (i, ?p) = Inr ?s'"
      using hit by (simp add: lru_step_def Let_def list_remove_def)
    have r: "set ?rest \<subseteq> set ?M" "?p \<notin> set ?rest" "distinct ?rest"
        "sorted_wrt (<) (map ?key ?rest)" "length ?rest < nat frames"
      using dist hit len sorted
      by (auto simp: length_remove1 sorted_wrt_map intro: sorted_wrt_remove1
          dest: notin_set_remove1) (cases ?M; simp)
    have inv': "lru_inv pages (nat frames) (Suc i) ?s'"
      by (rule lru_inv_after[OF inv _ _ r]) (simp_all add: snapshot_def)
    have good: "good_step (nat frames) s ?p ?s'"
      using hit r(1,2,3,5) by (simp add: good_step_def snapshot_def) blast
    show ?thesis
      using step inv' good hit by (simp add: snapshot_def)
  next
    case room
    let ?s' = "snapshot (s\<lparr>iterations := iterations s + 1, physical_memory := ?M @ [?p],
        page_faults := page_faults s + 1, page_indices := (page_indices s)(?p \<mapsto> i)\<rparr>)"
    have step: "lru_step frames s (i, ?p) = Inr ?s'"
      using room by (simp add: lru_step_def Let_def)
    have r: "set ?M \<subseteq> set ?M" "?p \<notin> set ?M" "distinct ?M"
        "sorted_wrt (<) (map ?key ?M)" "length ?M < nat frames"
      using dist room sorted by auto
    have inv': "lru_inv pages (nat frames) (Suc i) ?s'"
      by (rule lru_inv_after[OF inv _ _ r]) (simp_all add: snapshot_def)
    have good: "good_step (nat frames) s ?p ?s'"
      using room r(3,5) by (simp add: good_step_def snapshot_def)
    show ?thesis
      using step inv' good room by (simp add: snapshot_def)
  next
    case full
    with fr have ne: "?M \<noteq> []" by auto
    then obtain x xs where M: "?M = x # xs" by (cases ?M) auto
    have pm: "py_min ?M (page_indices s) = Inr (hd ?M)"
      by (rule py_min_sorted[OF ne keys sorted])
    let ?s' = "snapshot (s\<lparr>iterations := iterations s + 1, physical_memory := xs @ [?p],
        page_faults := page_faults s + 1, page_indices := (page_indices s)(?p \<mapsto> i)\<rparr>)"
    have step: "lru_step frames s (i, ?p) = Inr ?s'"
      using full pm M by (simp add: lru_step_def Let_def list_remove_def)
    have r: "set xs \<subseteq> set ?M" "?p \<notin> set xs" "distinct xs"
        "sorted_wrt (<) (map ?key xs)" "length xs < nat frames"
      using dist full(1) sorted len M by auto
    have inv': "lru_inv pages (nat frames) (Suc i) ?s'"
      by (rule lru_inv_after[OF inv _ _ r]) (simp_all add: snapshot_def)
    have good: "good_step (nat frames) s ?p ?s'"
      using full(1) r M by (simp add: good_step_def snapshot_def) blast
    show ?thesis
      using step inv' good full pm M by (simp add: snapshot_def)
  qed
qed

lemma lru_inv_init: "lru_inv pages k 0 lru_init"
  by (simp add: lru_inv_def lru_init_def)

lemma demand_paged_snaps:
  "demand_paged k M ps snaps \<Longrightarrow> \<forall>m \<in> set snaps. distinct m \<and> length m \<le> k"
  by (induction k M ps snaps rule: demand_paged.induct) auto

lemma misses_filter:
  "length snaps = length ps \<Longrightarrow>
   misses M ps snaps = length (filter (\<lambda>i. ps ! i \<notin> set ((M # snaps) ! i)) [0..<length ps])"
proof (induction ps arbitrary: M snaps)
  case Nil
  then show ?case by simp
next
  case (Cons p ps)
  then obtain M' rest where s: "snaps = M' # rest" "length rest = length ps"
    by (cases snaps) auto
  have "[0..<length (p # ps)] = 0 # map Suc [0..<length ps]"
    by (simp add: upt_conv_Cons map_Suc_upt del: upt_Suc)
  then show ?case
    using Cons.IH[OF s(2), of M'] s(1) by (simp add: filter_map comp_def del: upt_Suc)
qed

lemma truncate_fields [simp]:
  "physical_memory (mem_state.truncate s) = physical_memory s"
  "page_faults (mem_state.truncate s) = page_faults s"
  "movements (mem_state.truncate s) = movements s"
  "iterations (mem_state.truncate s) = iterations s"
  by (simp_all add: mem_state.truncate_def)

lemma good_step_truncate [simp]:
  "good_step k (mem_state.truncate s) p (mem_state.truncate s') = good_step k s p s'"
  by (simp add: good_step_def)

lemma make_report_fields [simp]:
  "physical_memory (make_report clock s) = physical_memory s"
  "page_faults (make_report clock s) = page_faults s"
  "movements (make_report clock s) = movements s"
  "iterations (make_report clock s) = iterations s"
  "run_time (make_report clock s) = snd clock - fst clock"
  by (simp_all add: make_report_def)


lemma good_step_mem_ok: "good_step k s p s' \<Longrightarrow> mem_ok k j s'"
  by (simp add: good_step_def mem_ok_def)

lemma fifo_body:
  assumes "1 \<le> frames" "j < length pages" "mem_ok (nat frames) j s"
  shows "\<exists>s'. fifo_step frames s (pages ! j) = Inr s' \<and>
     good_step (nat frames) s (id (pages ! j)) s' \<and> mem_ok (nat frames) (Suc j) s'"
proof -
  from fifo_step_good[of frames s "pages ! j"] assms
  obtain s' where "fifo_step frames s (pages ! j) = Inr s'"
      "good_step (nat frames) s (pages ! j) s'"
    unfolding mem_ok_def by blast
  then show ?thesis
    using good_step_mem_ok[of "nat frames" s "pages ! j" s' "Suc j"] by simp
qed

lemma optimal_body:
  assumes "1 \<le> frames" "j < length (enumerate 0 pages)" "mem_ok (nat frames) j s"
  shows "\<exists>s'. optimal_step frames pages s (enumerate 0 pages ! j) = Inr s' \<and>
     good_step (nat frames) s (snd (enumerate 0 pages ! j)) s' \<and> mem_ok (nat frames) (Suc j) s'"
proof -
  from optimal_step_good[of frames s pages j "pages ! j"] assms
  obtain s' where "optimal_step frames pages s (j, pages ! j) = Inr s'"
      "good_step (nat frames) s (pages ! j) s'"
    unfolding mem_ok_def by blast
  then show ?thesis
    using good_step_mem_ok[of "nat frames" s "pages ! j" s' "Suc j"] assms(2)
    by (simp add: nth_enumerate_eq)
qed

lemma lru_body:
  assumes "1 \<le> frames" "j < length (enumerate 0 pages)" "lru_inv pages (nat frames) j s"
  shows "\<exists>s'. lru_step frames s (enumerate 0 pages ! j) = Inr s' \<and>
     good_step (nat frames) s (snd (enumerate 0 pages ! j)) s' \<and>
     lru_inv pages (nat frames) (Suc j) s'"
  using lru_step_good[of frames j pages s] assms
  by (auto simp: nth_enumerate_eq)

lemma mem_ok_init: "mem_ok k 0 fifo_init"
  by (simp add: mem_ok_def fifo_init_def)

lemma simulate_run:
  assumes fr: "1 \<le> frames"
  shows "\<exists>r. simulate pol clock pages frames = Inr r \<and>
     demand_paged (nat frames) [] pages (movements r) \<and>
     page_faults r = misses [] pages (movements r) \<and>
     physical_memory r = last ([] # movements r) \<and>
     iterations r = length pages \<and> run_time r = snd clock - fst clock"
proof (cases pol)
  case FIFO
  from for_each_run[where body = "fifo_step frames" and xs = pages and Inv = "mem_ok (nat frames)"
      and k = "nat frames" and pg = id and s = fifo_init, OF fifo_body[OF fr] mem_ok_init]
  show ?thesis
    by (auto simp: FIFO fifo_page_replacement_def fifo_init_def)
next
  case LRU
  from for_each_run[where body = "lru_step frames" and xs = "enumerate 0 pages"
      and Inv = "lru_inv pages (nat frames)" and k = "nat frames" and pg = snd and s = lru_init,
      OF lru_body[OF fr] lru_inv_init]
  show ?thesis
    by (auto simp: LRU lru_page_replacement_def lru_init_def map_snd_enumerate)
next
  case Optimal
  from for_each_run[where body = "optimal_step frames pages" and xs = "enumerate 0 pages"
      and Inv = "mem_ok (nat frames)" and k = "nat frames" and pg = snd and s = fifo_init,
      OF optimal_body[OF fr] mem_ok_init]
  show ?thesis
    by (auto simp: Optimal optimal_page_replacement_def fifo_init_def map_snd_enumerate)
qed

lemma fifo_at:
  assumes fr: "1 \<le> frames" and i: "i < length pages"
  shows "\<exists>s s' t. fifo_state_at pages frames i = Inr s \<and> mem_ok (nat frames) i s \<and>
     fifo_step frames s (pages ! i) = Inr s' \<and> good_step (nat frames) s (pages ! i) s' \<and>
     fifo_state_at pages frames (Suc i) = Inr s' \<and>
     for_each (fifo_step frames) fifo_init pages = Inr t \<and>
     length (movements t) = length pages \<and>
     physical_memory s = ([] # movements t) ! i \<and> physical_memory s' = movements t ! i"
  using for_each_run_at[where body = "fifo_step frames" and xs = pages
      and Inv = "mem_ok (nat frames)" and k = "nat frames" and pg = id and s = fifo_init
      and i = i, OF fifo_body[OF fr] mem_ok_init i]
  by (auto simp: fifo_state_at_def fifo_init_def)

lemma optimal_at:
  assumes fr: "1 \<le> frames" and i: "i < length pages"
  shows "\<exists>s s' t. optimal_state_at pages frames i = Inr s \<and> mem_ok (nat frames) i s \<and>
     optimal_step frames pages s (i, pages ! i) = Inr s' \<and>
     good_step (nat frames) s (pages ! i) s' \<and>
     optimal_state_at pages frames (Suc i) = Inr s' \<and>
     for_each (optimal_step frames pages) fifo_init (enumerate 0 pages) = Inr t \<and>
     length (movements t) = length pages \<and>
     physical_memory s = ([] # movements t) ! i \<and> physical_memory s' = movements t ! i"
proof -
  have i': "i < length (enumerate 0 pages)" using i by simp
  show ?thesis
    using for_each_run_at[where body = "optimal_step frames pages" and xs = "enumerate 0 pages"
        and Inv = "mem_ok (nat frames)" and k = "nat frames" and pg = snd and s = fifo_init
        and i = i, OF optimal_body[OF fr] mem_ok_init i'] i
    by (auto simp: optimal_state_at_def fifo_init_def nth_enumerate_eq)
qed

lemma lru_at:
  assumes fr: "1 \<le> frames" and i: "i < length pages"
  shows "\<exists>s s' t. lru_state_at pages frames i = Inr s \<and> lru_inv pages (nat frames) i s \<and>
     lru_step frames s (i, pages ! i) = Inr s' \<and>
     good_step (nat frames) s (pages ! i) s' \<and>
     lru_state_at pages frames (Suc i) = Inr s' \<and>
     for_each (lru_step frames) lru_init (enumerate 0 pages) = Inr t \<and>
     length (movements t) = length pages \<and>
     physical_memory s = ([] # movements t) ! i \<and> physical_memory s' = movements t ! i"
proof -
  have i': "i < length (enumerate 0 pages)" using i by simp
  show ?thesis
    using for_each_run_at[where body = "lru_step frames" and xs = "enumerate 0 pages"
        and Inv = "lru_inv pages (nat frames)" and k = "nat frames" and pg = snd
        and s = lru_init and i = i, OF lru_body[OF fr] lru_inv_init i'] i
    by (auto simp: lru_state_at_def lru_init_def nth_enumerate_eq)
qed

lemma simulate_at:
  assumes fr: "1 \<le> frames" and i: "i < length pages"
  shows "\<exists>s s' r. state_at pol pages frames i = Inr s \<and>
     state_at pol pages frames (Suc i) = Inr s' \<and>
     simulate pol clock pages frames = Inr r \<and>
     good_step (nat frames) s (pages ! i) s' \<and>
     physical_memory s = ([] # movements r) ! i \<and> physical_memory s' = movements r ! i"
proof (cases pol)
  case FIFO
  from fifo_at[OF fr i] show ?thesis
    by (auto simp: FIFO fifo_page_replacement_def)
next
  case LRU
  from lru_at[OF fr i] show ?thesis
    by (auto simp: LRU lru_page_replacement_def)
next
  case Optimal
  from optimal_at[OF fr i] show ?thesis
    by (auto simp: Optimal optimal_page_replacement_def)
qed

lemma simulate_clock:
  "simulate pol clock1 pages frames = Inr r \<Longrightarrow>
   simulate pol clock2 pages frames = Inr (r\<lparr>run_time := snd clock2 - fst clock2\<rparr>)"
  by (cases pol)
    (auto simp: fifo_page_replacement_def lru_page_replacement_def optimal_page_replacement_def
      make_report_def split: sum.splits)

lemma lru_inv_at:
  assumes fr: "1 \<le> frames" and i: "i \<le> length pages"
  shows "\<exists>s. lru_state_at pages frames i = Inr s \<and> lru_inv pages (nat frames) i s"
proof -
  have step: "\<exists>s'. lru_step frames s (take i (enumerate 0 pages) ! j) = Inr s' \<and>
        good_step (nat frames) s (snd (take i (enumerate 0 pages) ! j)) s' \<and>
        lru_inv pages (nat frames) (Suc j) s'"
    if j: "j < length (take i (enumerate 0 pages))" and inv: "lru_inv pages (nat frames) j s"
    for j s
  proof -
    from j have "j < length (enumerate 0 pages)" by simp
    from lru_body[OF fr this inv] j show ?thesis by simp
  qed
  have len: "length (take i (enumerate 0 pages)) = i"
    using i by simp
  from for_each_run[where body = "lru_step frames" and xs = "take i (enumerate 0 pages)"
      and Inv = "lru_inv pages (nat frames)" and k = "nat frames" and pg = snd
      and s = lru_init, OF step lru_inv_init, unfolded len]
  show ?thesis by (auto simp: lru_state_at_def)
qed

lemma lru_state_at_Suc:
  assumes "lru_state_at pages frames i = Inr s" "i < length pages"
  shows "lru_state_at pages frames (Suc i) = lru_step frames s (i, pages ! i)"
  using assms
  by (simp add: lru_state_at_def take_Suc_conv_app_nth for_each_snoc nth_enumerate_eq)

lemma optimal_state_at_Suc:
  assumes "optimal_state_at pages frames i = Inr s" "i < length pages"
  shows "optimal_state_at pages frames (Suc i) = optimal_step frames pages s (i, pages ! i)"
  using assms
  by (simp add: optimal_state_at_def take_Suc_conv_app_nth for_each_snoc nth_enumerate_eq)

lemma index_of_first:
  "x \<in> set xs \<Longrightarrow>
   index_of xs x < length xs \<and> xs ! index_of xs x = x \<and> (\<forall>j < index_of xs x. xs ! j \<noteq> x)"
proof (induction xs)
  case Nil
  then show ?case by simp
next
  case (Cons y ys)
  then show ?case by (auto simp: nth_Cons split: nat.splits)
qed

lemma sorted_wrt_hd_least:
  assumes "sorted_wrt (<) (map key M)" "q \<in> set M" "q \<noteq> hd M"
  shows "key (hd M) < key q"
  using assms by (cases M) auto

lemma lru_miss_full:
  assumes fr: "1 \<le> frames" and i: "i < length pages"
  shows "\<exists>s s'. lru_state_at pages frames i = Inr s \<and>
     lru_state_at pages frames (Suc i) = Inr s' \<and> lru_inv pages (nat frames) i s \<and>
     (pages ! i \<notin> set (physical_memory s) \<and> \<not> int (length (physical_memory s)) < frames \<longrightarrow>
        physical_memory s \<noteq> [] \<and>
        py_min (physical_memory s) (page_indices s) = Inr (hd (physical_memory s)) \<and>
        physical_memory s' = tl (physical_memory s) @ [pages ! i])"
proof -
  from lru_inv_at[OF fr, of i pages] i
  obtain s where s: "lru_state_at pages frames i = Inr s" "lru_inv pages (nat frames) i s"
    by auto
  from lru_step_good[OF fr i s(2)]
  obtain s' where s': "lru_step frames s (i, pages ! i) = Inr s'"
      "physical_memory s' =
       (if pages ! i \<in> set (physical_memory s)
        then remove1 (pages ! i) (physical_memory s) @ [pages ! i]
        else if int (length (physical_memory s)) < frames then physical_memory s @ [pages ! i]
        else tl (physical_memory s) @ [pages ! i])"
      "pages ! i \<notin> set (physical_memory s) \<and> \<not> int (length (physical_memory s)) < frames
        \<longrightarrow> py_min (physical_memory s) (page_indices s) = Inr (hd (physical_memory s))"
    by blast
  have next_state: "lru_state_at pages frames (Suc i) = Inr s'"
    using lru_state_at_Suc[OF s(1) i] s'(1) by simp
  have ne: "physical_memory s \<noteq> []" if "\<not> int (length (physical_memory s)) < frames"
    using that fr by auto
  from s next_state s'(2,3) ne show ?thesis by auto
qed

lemma optimal_miss_full:
  assumes fr: "1 \<le> frames" and i: "i < length pages"
  shows "\<exists>s s'. optimal_state_at pages frames i = Inr s \<and>
     optimal_state_at pages frames (Suc i) = Inr s' \<and>
     distinct (physical_memory s) \<and> length (physical_memory s) \<le> nat frames \<and>
     physical_memory s' = opt_next frames (physical_memory s) (pages ! i) (drop (Suc i) pages)"
proof -
  from optimal_at[OF fr i]
  obtain s s' where s: "optimal_state_at pages frames i = Inr s" "mem_ok (nat frames) i s"
      "optimal_step frames pages s (i, pages ! i) = Inr s'"
      "optimal_state_at pages frames (Suc i) = Inr s'"
    by blast
  from s(2) have ok: "distinct (physical_memory s)" "length (physical_memory s) \<le> nat frames"
    by (simp_all add: mem_ok_def)
  from optimal_step_good[OF fr ok, of pages i "pages ! i"] s(3)
  have "physical_memory s' = opt_next frames (physical_memory s) (pages ! i) (drop (Suc i) pages)"
    by auto
  with s(1,4) ok show ?thesis by blast
qed

subsection \<open>Counting resident pages among the next references\<close>

lemma card_Int_insert:
  "finite X \<Longrightarrow> card (X \<inter> insert p T) = card (X \<inter> T) + (if p \<in> X \<and> p \<notin> T then 1 else 0)"
proof (cases "p \<in> X \<and> p \<notin> T")
  case True
  assume "finite X"
  from True have "X \<inter> insert p T = insert p (X \<inter> T)" by auto
  moreover from True have "p \<notin> X \<inter> T" by simp
  ultimately show ?thesis using True \<open>finite X\<close> by simp
next
  case False
  then have "X \<inter> insert p T = X \<inter> T" by auto
  with False show ?thesis by simp
qed

lemma card_Int_grow:
  assumes "finite D" "D' \<subseteq> insert p D"
  shows "card (D' \<inter> T) \<le> card (D \<inter> T) + (if p \<notin> D \<and> p \<in> T then 1 else 0)"
proof (cases "p \<notin> D \<and> p \<in> T")
  case True
  have "D' \<inter> T \<subseteq> insert p (D \<inter> T)" using assms(2) by auto
  then have "card (D' \<inter> T) \<le> card (insert p (D \<inter> T))"
    using assms(1) by (intro card_mono) auto
  also have "\<dots> \<le> card (D \<inter> T) + 1"
    using assms(1) by (simp add: card_insert_if)
  finally show ?thesis using True by simp
next
  case False
  have "D' \<inter> T \<subseteq> D \<inter> T" using assms(2) False by auto
  then have "card (D' \<inter> T) \<le> card (D \<inter> T)"
    using assms(1) by (intro card_mono) auto
  with False show ?thesis by simp
qed

lemma card_Int_without:
  assumes "finite D'" "p \<in> D'" "p \<notin> T"
  shows "card (D' \<inter> T) < card D'"
proof -
  have "D' \<inter> T \<subset> D'" using assms(2,3) by auto
  then show ?thesis using assms(1) by (rule psubset_card_mono[rotated])
qed

lemma card_Int_swap:
  assumes "finite C" "a \<in> C" "p \<notin> C"
  shows "card (insert p (C - {a}) \<inter> T) + (if a \<in> T then 1 else 0)
     = card (C \<inter> T) + (if p \<in> T then 1 else 0)"
proof -
  have fin: "finite ((C - {a}) \<inter> T)" using assms(1) by simp
  have 1: "card (insert p (C - {a}) \<inter> T) = card ((C - {a}) \<inter> T) + (if p \<in> T then 1 else 0)"
  proof (cases "p \<in> T")
    case True
    then have "insert p (C - {a}) \<inter> T = insert p ((C - {a}) \<inter> T)" by auto
    moreover have "p \<notin> (C - {a}) \<inter> T" using assms(3) by simp
    ultimately show ?thesis using True fin by simp
  next
    case False
    then have "insert p (C - {a}) \<inter> T = (C - {a}) \<inter> T" by auto
    with False show ?thesis by simp
  qed
  have 2: "card ((C - {a}) \<inter> T) + (if a \<in> T then 1 else 0) = card (C \<inter> T)"
  proof (cases "a \<in> T")
    case True
    then have "C \<inter> T = insert a ((C - {a}) \<inter> T)" using assms(2) by auto
    moreover have "a \<notin> (C - {a}) \<inter> T" by simp
    ultimately show ?thesis using True fin by simp
  next
    case False
    then have "(C - {a}) \<inter> T = C \<inter> T" by auto
    with False show ?thesis by simp
  qed
  from 1 2 show ?thesis by simp
qed

lemma in_set_take_index:
  "x \<in> set (take t xs) \<longleftrightarrow> x \<in> set xs \<and> index_of xs x < t"
proof (induction xs arbitrary: t)
  case Nil
  then show ?case by simp
next
  case (Cons y ys)
  then show ?case by (cases t) auto
qed

text \<open>The page that the inner loop of Optimal chooses is needed after all other residents.\<close>

lemma victim_needed_last:
  assumes "M \<noteq> []" "choose_victim fut (- 1) None M = Some v"
  shows "v \<in> set M \<and> (\<forall>t. v \<in> set (take t fut) \<longrightarrow> set M \<subseteq> set (take t fut))"
proof -
  from choose_victim_start[OF assms(1), of fut] assms(2)
  have v: "v \<in> set M"
    "case find (\<lambda>f. f \<notin> set fut) M of
       Some d \<Rightarrow> v = d
     | None \<Rightarrow> set M \<subseteq> set fut \<and> (\<forall>q \<in> set M. index_of fut q \<le> index_of fut v)"
    by auto
  have "set M \<subseteq> set (take t fut)" if t: "v \<in> set (take t fut)" for t
  proof (cases "find (\<lambda>f. f \<notin> set fut) M")
    case None
    with v(2) have sub: "set M \<subseteq> set fut" and far: "\<forall>q \<in> set M. index_of fut q \<le> index_of fut v"
      by simp_all
    from t have "index_of fut v < t" by (simp add: in_set_take_index)
    have "q \<in> set (take t fut)" if "q \<in> set M" for q
    proof -
      from that sub have "q \<in> set fut" by blast
      moreover from that far \<open>index_of fut v < t\<close> have "index_of fut q < t" by force
      ultimately show ?thesis by (simp add: in_set_take_index)
    qed
    then show ?thesis by blast
  next
    case (Some d)
    with v(2) find_Some_iff[of "\<lambda>f. f \<notin> set fut" M d] have "v \<notin> set fut" by auto
    with t show ?thesis by (auto dest: in_set_takeD)
  qed
  with v(1) show ?thesis by blast
qed

lemma opt_next_ok:
  assumes fr: "1 \<le> frames" and C: "distinct C" "length C \<le> nat frames"
  shows "distinct (opt_next frames C p fut) \<and> length (opt_next frames C p fut) \<le> nat frames"
proof (cases "p \<notin> set C \<and> \<not> int (length C) < frames")
  case False
  with C show ?thesis by (auto simp: opt_next_def)
next
  case True
  with fr have ne: "C \<noteq> []" by auto
  from choose_victim_start[OF ne, of fut]
  obtain v where v: "v \<in> set C" "choose_victim fut (- 1) None C = Some v" by blast
  have "length (remove1 v C) < length C"
    using v(1) ne by (simp add: length_remove1)
  moreover have "p \<notin> set (remove1 v C)"
    using True by (auto dest: notin_set_remove1)
  ultimately show ?thesis
    using True v(2) C by (simp add: opt_next_def)
qed

lemma opt_next_count:
  assumes fr: "1 \<le> frames" and C: "distinct C" "length C \<le> nat frames" and p: "p \<notin> set C"
  shows "card (set (opt_next frames C p fut) \<inter> set (take t fut))
       = card (set C \<inter> set (take t fut)) + (if p \<in> set (take t fut) then 1 else 0)
     \<or> card (set (opt_next frames C p fut) \<inter> set (take t fut)) + 1
       = nat frames + (if p \<in> set (take t fut) then 1 else 0)"
proof (cases "int (length C) < frames")
  case True
  then have "set (opt_next frames C p fut) = insert p (set C)"
    using p by (simp add: opt_next_def)
  then show ?thesis
    using card_Int_insert[of "set (take t fut)" p "set C"] p
    by (simp add: Int_commute card_Int_insert insert_commute)
next
  case False
  with fr have ne: "C \<noteq> []" by auto
  from False C(2) have full: "length C = nat frames" by linarith
  from choose_victim_start[OF ne, of fut]
  obtain v where v: "v \<in> set C" "choose_victim fut (- 1) None C = Some v" by blast
  from victim_needed_last[OF ne v(2)]
  have last: "\<forall>t. v \<in> set (take t fut) \<longrightarrow> set C \<subseteq> set (take t fut)" by blast
  have new: "set (opt_next frames C p fut) = insert p (set C - {v})"
    using False p v(2) C(1) by (simp add: opt_next_def)
  let ?T = "set (take t fut)"
  from card_Int_swap[of "set C" v p ?T] v(1) p
  have swap: "card (insert p (set C - {v}) \<inter> ?T) + (if v \<in> ?T then 1 else 0)
     = card (set C \<inter> ?T) + (if p \<in> ?T then 1 else 0)"
    by simp
  show ?thesis
  proof (cases "v \<in> ?T")
    case True
    with last have "set C \<inter> ?T = set C" by blast
    then have "card (set C \<inter> ?T) = nat frames"
      using C(1) full by (simp add: distinct_card)
    with swap True new show ?thesis by simp
  next
    case False
    with swap new show ?thesis by simp
  qed
qed

text \<open>
  Optimal never has more faults than a demand-paged run, as long as, for every prefix of
  the references to come, the other run holds at most \<open>d\<close> more of its pages.
\<close>

lemma optimal_dominates:
  assumes fr: "1 \<le> frames"
  shows "distinct C \<Longrightarrow> length C \<le> nat frames \<Longrightarrow> demand_paged (nat frames) D ps dsnaps \<Longrightarrow>
     (\<forall>t. card (set D \<inter> set (take t ps)) \<le> card (set C \<inter> set (take t ps)) + d) \<Longrightarrow>
     misses C ps (opt_snaps frames C ps) \<le> misses D ps dsnaps + d"
proof (induction ps arbitrary: C D dsnaps d)
  case Nil
  then show ?case by simp
next
  case (Cons p ps)
  from Cons.prems(3) obtain D' rest where snaps: "dsnaps = D' # rest"
    and D': "p \<in> set D'" "set D' \<subseteq> insert p (set D)" "distinct D'" "length D' \<le> nat frames"
      "demand_paged (nat frames) D' ps rest"
    by (cases dsnaps) auto
  let ?C' = "opt_next frames C p ps"
  let ?cC = "if p \<in> set C then 0 else 1 :: nat"
  let ?cD = "if p \<in> set D then 0 else 1 :: nat"
  from opt_next_ok[OF fr Cons.prems(1,2), of p ps]
  have C': "distinct ?C'" "length ?C' \<le> nat frames" by simp_all
  have H: "card (set D \<inter> set (take t ps)) + (if p \<in> set D \<and> p \<notin> set (take t ps) then 1 else 0)
      \<le> card (set C \<inter> set (take t ps)) + (if p \<in> set C \<and> p \<notin> set (take t ps) then 1 else 0) + d"
    for t
    using Cons.prems(4)[rule_format, of "Suc t"] by (simp add: card_Int_insert)
  have G: "card (set D' \<inter> set (take t ps))
      \<le> card (set D \<inter> set (take t ps)) + (if p \<notin> set D \<and> p \<in> set (take t ps) then 1 else 0)"
    for t
    by (rule card_Int_grow[OF _ D'(2)]) simp
  have B: "card (set D' \<inter> set (take t ps)) + (if p \<notin> set (take t ps) then 1 else 0) \<le> nat frames"
    for t
  proof (cases "p \<in> set (take t ps)")
    case True
    have "card (set D' \<inter> set (take t ps)) \<le> card (set D')"
      by (intro card_mono) auto
    with D'(3,4) True show ?thesis by (simp add: distinct_card)
  next
    case False
    from card_Int_without[of "set D'" p "set (take t ps)"] D'(1) False
    have "card (set D' \<inter> set (take t ps)) < card (set D')" by simp
    with D'(3,4) False show ?thesis by (simp add: distinct_card)
  qed
  have d1: "?cC \<le> d + ?cD"
    using Cons.prems(4)[rule_format, of "Suc 0"] by (auto split: if_splits)
  have inv: "card (set D' \<inter> set (take t ps)) + ?cC \<le> card (set ?C' \<inter> set (take t ps)) + d + ?cD"
    for t
  proof (cases "p \<in> set C")
    case True
    then have "?C' = C" by (simp add: opt_next_def)
    with True H[of t] G[of t] show ?thesis by (auto split: if_splits)
  next
    case False
    from opt_next_count[OF fr Cons.prems(1,2) False, of ps t]
    show ?thesis
    proof
      assume "card (set ?C' \<inter> set (take t ps))
          = card (set C \<inter> set (take t ps)) + (if p \<in> set (take t ps) then 1 else 0)"
      with False H[of t] G[of t] show ?thesis by (auto split: if_splits)
    next
      assume "card (set ?C' \<inter> set (take t ps)) + 1
          = nat frames + (if p \<in> set (take t ps) then 1 else 0)"
      with False B[of t] d1 show ?thesis by (auto split: if_splits)
    qed
  qed
  have inv': "\<forall>t. card (set D' \<inter> set (take t ps))
      \<le> card (set ?C' \<inter> set (take t ps)) + (d + ?cD - ?cC)"
  proof
    fix t
    from inv[of t] d1
    show "card (set D' \<inter> set (take t ps))
        \<le> card (set ?C' \<inter> set (take t ps)) + (d + ?cD - ?cC)"
      by (cases "p \<in> set C"; cases "p \<in> set D"; simp)
  qed
  from Cons.IH[OF C' D'(5) inv']
  have "misses ?C' ps (opt_snaps frames ?C' ps) \<le> misses D' ps rest + (d + ?cD - ?cC)" .
  with d1 show ?case by (simp add: snaps split: if_splits)
qed

lemma opt_snaps_unique:
  "length snaps = length ps \<Longrightarrow>
   (\<forall>i<length ps. snaps ! i = opt_next frames ((M # snaps) ! i) (ps ! i) (drop (Suc i) ps)) \<Longrightarrow>
   snaps = opt_snaps frames M ps"
proof (induction ps arbitrary: M snaps)
  case Nil
  then show ?case by simp
next
  case (Cons p ps)
  then obtain S rest where s: "snaps = S # rest" "length rest = length ps"
    by (cases snaps) auto
  from Cons.prems(2)[rule_format, of 0] s(1) have S: "S = opt_next frames M p ps" by simp
  have "rest ! i = opt_next frames ((S # rest) ! i) (ps ! i) (drop (Suc i) ps)"
    if "i < length ps" for i
    using Cons.prems(2)[rule_format, of "Suc i"] that s(1) by simp
  with Cons.IH[OF s(2), of S] have "rest = opt_snaps frames S ps" by blast
  with s(1) S show ?case by simp
qed

lemma optimal_movements:
  assumes fr: "1 \<le> frames"
  shows "\<exists>r. simulate Optimal clock pages frames = Inr r \<and>
     movements r = opt_snaps frames [] pages \<and>
     page_faults r = misses [] pages (opt_snaps frames [] pages)"
proof -
  from simulate_run[OF fr, of Optimal clock pages]
  obtain r where r: "simulate Optimal clock pages frames = Inr r"
      "demand_paged (nat frames) [] pages (movements r)"
      "page_faults r = misses [] pages (movements r)"
    by blast
  have step: "movements r ! i =
      opt_next frames (([] # movements r) ! i) (pages ! i) (drop (Suc i) pages)"
    if i: "i < length pages" for i
  proof -
    from optimal_at[OF fr i]
    obtain s s' t where a: "mem_ok (nat frames) i s"
        "optimal_step frames pages s (i, pages ! i) = Inr s'"
        "for_each (optimal_step frames pages) fifo_init (enumerate 0 pages) = Inr t"
        "physical_memory s = ([] # movements t) ! i" "physical_memory s' = movements t ! i"
      by blast
    from a(3) r(1) have m: "movements r = movements t"
      by (auto simp: optimal_page_replacement_def)
    from a(1) have ok: "distinct (physical_memory s)" "length (physical_memory s) \<le> nat frames"
      by (simp_all add: mem_ok_def)
    from optimal_step_good[OF fr ok, of pages i "pages ! i"] a(2)
    have "physical_memory s' =
        opt_next frames (physical_memory s) (pages ! i) (drop (Suc i) pages)"
      by auto
    with a(4,5) m show ?thesis by simp
  qed
  from opt_snaps_unique[OF demand_paged_length[OF r(2)], of frames "[]"] step
  have "movements r = opt_snaps frames [] pages" by blast
  with r(1,3) show ?thesis by simp
qed

lemma optimal_le_policy:
  assumes fr: "1 \<le> frames"
  shows "\<exists>ro r. simulate Optimal clock1 pages frames = Inr ro \<and>
     simulate pol clock2 pages frames = Inr r \<and> page_faults ro \<le> page_faults r"
proof -
  from optimal_movements[OF fr, of clock1 pages]
  obtain ro where ro: "simulate Optimal clock1 pages frames = Inr ro"
      "page_faults ro = misses [] pages (opt_snaps frames [] pages)"
    by blast
  from simulate_run[OF fr, of pol clock2 pages]
  obtain r where r: "simulate pol clock2 pages frames = Inr r"
      "demand_paged (nat frames) [] pages (movements r)"
      "page_faults r = misses [] pages (movements r)"
    by blast
  from optimal_dominates[OF fr _ _ r(2), of "[]" 0]
  have "misses [] pages (opt_snaps frames [] pages) \<le> misses [] pages (movements r)"
    by simp
  with ro r(1,3) show ?thesis by simp
qed

section \<open>The worked examples\<close>

text \<open>
  C1 (as amended). FIFO on the trace \<open>[A,B,C,D,A,B,E]\<close> with three frames: every one of the
  seven references is a page fault, so the fault count is 7; the frames evolve
  \<open>[A]\<close>, \<open>[A,B]\<close>, \<open>[A,B,C]\<close>, \<open>[B,C,D]\<close>, \<open>[C,D,A]\<close>, \<open>[D,A,B]\<close>, \<open>[A,B,E]\<close>, and
  the final frames are \<open>[A,B,E]\<close>.
\<close>

theorem fifo_example:
  "fifo_page_replacement clock [''A'', ''B'', ''C'', ''D'', ''A'', ''B'', ''E''] 3 =
     Inr \<lparr>physical_memory = [''A'', ''B'', ''E''], page_faults = 7,
          movements = [[''A''], [''A'', ''B''], [''A'', ''B'', ''C''], [''B'', ''C'', ''D''],
                       [''C'', ''D'', ''A''], [''D'', ''A'', ''B''], [''A'', ''B'', ''E'']],
          iterations = 7, run_time = snd clock - fst clock\<rparr>"
  by (simp add: fifo_page_replacement_def fifo_step_def fifo_init_def snapshot_def
      make_report_def list_pop0_def)

text \<open>C1 as stated fails: the fault count of that run is not 6.\<close>

theorem fifo_example_not_six:
  "map_sum id page_faults
     (fifo_page_replacement (0, 1) [''A'', ''B'', ''C'', ''D'', ''A'', ''B'', ''E''] 3) \<noteq> Inr 6"
  by (simp add: fifo_page_replacement_def fifo_step_def fifo_init_def snapshot_def
      make_report_def list_pop0_def)

text \<open>
  C2 (as amended). Optimal on the trace \<open>[A,B,C,A,B,D,A]\<close> with three frames: A, B, C are
  admitted (three faults), A and B hit, and on the miss for D both B and C have no later
  occurrence; the inner loop stops at B, the first of them in the list, so B is evicted and
  the frames after D are \<open>[A,C,D]\<close>. A hits again and the fault count is 4.
\<close>

theorem optimal_example:
  "optimal_page_replacement clock [''A'', ''B'', ''C'', ''A'', ''B'', ''D'', ''A''] 3 =
     Inr \<lparr>physical_memory = [''A'', ''C'', ''D''], page_faults = 4,
          movements = [[''A''], [''A'', ''B''], [''A'', ''B'', ''C''], [''A'', ''B'', ''C''],
                       [''A'', ''B'', ''C''], [''A'', ''C'', ''D''], [''A'', ''C'', ''D'']],
          iterations = 7, run_time = snd clock - fst clock\<rparr>
   \<and> choose_victim [''A''] (- 1) None [''A'', ''B'', ''C''] = Some ''B''"
  by (simp add: optimal_page_replacement_def optimal_step_def fifo_init_def snapshot_def
      make_report_def list_remove_def enumerate_eq_zip upt_rec Let_def)

text \<open>C2 as stated fails: the frame set after the reference to D is not \<open>{A,B,D}\<close>.\<close>

theorem optimal_example_not_ABD:
  "map_sum id (\<lambda>r. set (movements r ! 5))
     (optimal_page_replacement (0, 1) [''A'', ''B'', ''C'', ''A'', ''B'', ''D'', ''A''] 3)
   \<noteq> Inr {''A'', ''B'', ''D''}"
  by code_simp

section \<open>Capacity\<close>

text \<open>
  C3 (as amended). With a capacity of zero or less, a simulation of a non-empty trace fails
  at the first reference with a built-in exception of Python: FIFO with IndexError
  (\<^verbatim>\<open>pop(0)\<close> on the empty list), LRU with ValueError (\<^verbatim>\<open>min\<close> of the empty list) and
  Optimal with ValueError (\<^verbatim>\<open>remove(None)\<close>). On the empty trace no loop body runs and the
  simulation returns a report with no fault and no snapshot.
\<close>

theorem nonpositive_capacity:
  assumes "frames \<le> 0"
  shows "simulate pol clock pages frames =
     (if pages = []
      then Inr \<lparr>physical_memory = [], page_faults = 0, movements = [], iterations = 0,
                run_time = snd clock - fst clock\<rparr>
      else Inl (if pol = FIFO then IndexError else ValueError))"
proof (cases pages)
  case Nil
  then show ?thesis
    by (cases pol)
      (simp_all add: fifo_page_replacement_def lru_page_replacement_def
        optimal_page_replacement_def make_report_def fifo_init_def lru_init_def)
next
  case (Cons p ps)
  have "fifo_step frames fifo_init p = Inl IndexError"
    using assms by (simp add: fifo_step_def fifo_init_def list_pop0_def)
  moreover have "lru_step frames lru_init (0, p) = Inl ValueError"
    using assms by (simp add: lru_step_def lru_init_def py_min_def)
  moreover have "optimal_step frames pages fifo_init (0, p) = Inl ValueError"
    using assms by (simp add: optimal_step_def fifo_init_def)
  ultimately show ?thesis
    using Cons
    by (cases pol)
      (simp_all add: fifo_page_replacement_def lru_page_replacement_def
        optimal_page_replacement_def enumerate_simps)
qed

theorem nonpositive_capacity_witness:
  "(0::int) \<le> 0 \<and>
   simulate FIFO (0, 1) [''A'', ''B''] 0 = Inl IndexError \<and>
   simulate LRU (0, 1) [''A'', ''B''] 0 = Inl ValueError \<and>
   simulate Optimal (0, 1) [''A'', ''B''] (- 2) = Inl ValueError"
  using nonpositive_capacity[of 0 FIFO "(0, 1)" "[''A'', ''B'']"]
    nonpositive_capacity[of 0 LRU "(0, 1)" "[''A'', ''B'']"]
    nonpositive_capacity[of "- 2" Optimal "(0, 1)" "[''A'', ''B'']"]
  by simp

text \<open>C3 as stated fails: with capacity 0 the empty trace is simulated without any error.\<close>

theorem empty_trace_does_not_fail:
  "simulate FIFO (0, 1) ([] :: string list) 0 =
     Inr \<lparr>physical_memory = [], page_faults = 0, movements = [], iterations = 0, run_time = 1\<rparr>
   \<and> \<not> isl (simulate FIFO (0, 1) ([] :: string list) 0)"
  by (simp add: fifo_page_replacement_def make_report_def fifo_init_def)

section \<open>Faults and snapshots\<close>

text \<open>
  C4. With at least one frame, every simulation returns a report. Its fault count is the
  number of positions \<open>i\<close> whose page is absent from the frames the step before left (the
  empty frames for \<open>i = 0\<close>, the snapshot \<open>i - 1\<close> otherwise). Iteration \<open>i\<close> of the loop starts
  from exactly these frames and adds one to the fault counter when the page is absent from
  them, nothing when it is present.
\<close>

theorem fault_iff_absent:
  assumes "1 \<le> frames"
  shows "\<exists>r. simulate pol clock pages frames = Inr r \<and>
     page_faults r =
       length (filter (\<lambda>i. pages ! i \<notin> set (([] # movements r) ! i)) [0..<length pages]) \<and>
     (\<forall>i<length pages. \<exists>s s'.
        state_at pol pages frames i = Inr s \<and> state_at pol pages frames (Suc i) = Inr s' \<and>
        physical_memory s = ([] # movements r) ! i \<and>
        page_faults s' = page_faults s + (if pages ! i \<in> set (physical_memory s) then 0 else 1))"
proof -
  from simulate_run[OF assms, of pol clock pages]
  obtain r where r: "simulate pol clock pages frames = Inr r"
      "demand_paged (nat frames) [] pages (movements r)"
      "page_faults r = misses [] pages (movements r)"
    by blast
  have count: "page_faults r =
      length (filter (\<lambda>i. pages ! i \<notin> set (([] # movements r) ! i)) [0..<length pages])"
    using misses_filter[OF demand_paged_length[OF r(2)], of "[]"] r(3) by simp
  have steps: "\<exists>s s'. state_at pol pages frames i = Inr s \<and>
        state_at pol pages frames (Suc i) = Inr s' \<and>
        physical_memory s = ([] # movements r) ! i \<and>
        page_faults s' = page_faults s + (if pages ! i \<in> set (physical_memory s) then 0 else 1)"
    if "i < length pages" for i
    using simulate_at[OF assms that, of pol clock] r(1) by (auto simp: good_step_def)
  from r(1) count steps show ?thesis by blast
qed

theorem fault_iff_absent_witness:
  "(1::int) \<le> 2 \<and>
   map_sum id (\<lambda>r. (page_faults r, movements r,
       filter (\<lambda>i. [''A'', ''B'', ''A'', ''C'', ''B''] ! i \<notin> set (([] # movements r) ! i)) [0..<5]))
     (simulate FIFO (0, 1) [''A'', ''B'', ''A'', ''C'', ''B''] 2)
     = Inr (3, [[''A''], [''A'', ''B''], [''A'', ''B''], [''B'', ''C''], [''B'', ''C'']], [0, 1, 3]) \<and>
   map_sum id page_faults (state_at FIFO [''A'', ''B'', ''A'', ''C'', ''B''] 2 2) = Inr 2 \<and>
   map_sum id page_faults (state_at FIFO [''A'', ''B'', ''A'', ''C'', ''B''] 2 3) = Inr 2 \<and>
   map_sum id page_faults (state_at FIFO [''A'', ''B'', ''A'', ''C'', ''B''] 2 4) = Inr 3"
proof -
  note t = fault_iff_absent[of 2 FIFO "(0, 1)" "[''A'', ''B'', ''A'', ''C'', ''B'']"]
  have c: "map_sum id (\<lambda>r. (page_faults r, movements r,
       filter (\<lambda>i. [''A'', ''B'', ''A'', ''C'', ''B''] ! i \<notin> set (([] # movements r) ! i)) [0..<5]))
     (simulate FIFO (0, 1) [''A'', ''B'', ''A'', ''C'', ''B''] 2)
     = Inr (3, [[''A''], [''A'', ''B''], [''A'', ''B''], [''B'', ''C''], [''B'', ''C'']], [0, 1, 3])"
    "map_sum id page_faults (state_at FIFO [''A'', ''B'', ''A'', ''C'', ''B''] 2 2) = Inr 2"
    "map_sum id page_faults (state_at FIFO [''A'', ''B'', ''A'', ''C'', ''B''] 2 3) = Inr 2"
    "map_sum id page_faults (state_at FIFO [''A'', ''B'', ''A'', ''C'', ''B''] 2 4) = Inr 3"
    by code_simp+
  from t c show ?thesis by simp
qed

text \<open>
  C5. With at least one frame, every simulation returns a report with one snapshot for each
  reference of the trace, and no snapshot holds a page twice or more pages than there are
  frames.
\<close>

theorem snapshots_within_capacity:
  assumes "1 \<le> frames"
  shows "\<exists>r. simulate pol clock pages frames = Inr r \<and>
     length (movements r) = length pages \<and>
     (\<forall>m \<in> set (movements r). distinct m \<and> int (length m) \<le> frames)"
proof -
  from simulate_run[OF assms, of pol clock pages]
  obtain r where r: "simulate pol clock pages frames = Inr r"
      "demand_paged (nat frames) [] pages (movements r)"
    by blast
  from demand_paged_length[OF r(2)] demand_paged_snaps[OF r(2)] r(1) assms
  show ?thesis by auto
qed

theorem snapshots_within_capacity_witness:
  "(1::int) \<le> 2 \<and>
   map_sum id (\<lambda>r. (movements r, length (movements r),
       list_all (\<lambda>m. distinct m \<and> int (length m) \<le> 2) (movements r)))
     (simulate LRU (0, 1) [''A'', ''B'', ''C'', ''A'', ''D''] 2)
   = Inr ([[''A''], [''A'', ''B''], [''B'', ''C''], [''C'', ''A''], [''A'', ''D'']], 5, True)"
proof -
  note t = snapshots_within_capacity[of 2 LRU "(0, 1)" "[''A'', ''B'', ''C'', ''A'', ''D'']"]
  have c: "map_sum id (\<lambda>r. (movements r, length (movements r),
       list_all (\<lambda>m. distinct m \<and> int (length m) \<le> 2) (movements r)))
     (simulate LRU (0, 1) [''A'', ''B'', ''C'', ''A'', ''D''] 2)
   = Inr ([[''A''], [''A'', ''B''], [''B'', ''C''], [''C'', ''A''], [''A'', ''D'']], 5, True)"
    by code_simp
  from t c show ?thesis by simp
qed

section \<open>Two runs on the same input\<close>

text \<open>
  C9. With at least one frame, two simulations of the same trace under the same policy,
  whatever the clock shows in each, both return a report, and the two reports have the same
  fault count, the same snapshots, the same final frames and the same number of iterations;
  only the elapsed time depends on the clock.
\<close>

theorem runs_agree:
  assumes "1 \<le> frames"
  shows "\<exists>r1 r2. simulate pol clock1 pages frames = Inr r1 \<and>
     simulate pol clock2 pages frames = Inr r2 \<and>
     page_faults r1 = page_faults r2 \<and> movements r1 = movements r2 \<and>
     physical_memory r1 = physical_memory r2 \<and> iterations r1 = iterations r2"
proof -
  from simulate_run[OF assms, of pol clock1 pages]
  obtain r where r: "simulate pol clock1 pages frames = Inr r" by blast
  from simulate_clock[OF r, of clock2] r show ?thesis by auto
qed

theorem runs_agree_witness:
  "(1::int) \<le> 3 \<and>
   simulate Optimal (0, 1) [''A'', ''B'', ''C'', ''D'', ''A''] 3 =
     Inr \<lparr>physical_memory = [''A'', ''C'', ''D''], page_faults = 4,
          movements = [[''A''], [''A'', ''B''], [''A'', ''B'', ''C''], [''A'', ''C'', ''D''],
                       [''A'', ''C'', ''D'']],
          iterations = 5, run_time = 1\<rparr> \<and>
   simulate Optimal (2, 7) [''A'', ''B'', ''C'', ''D'', ''A''] 3 =
     Inr \<lparr>physical_memory = [''A'', ''C'', ''D''], page_faults = 4,
          movements = [[''A''], [''A'', ''B''], [''A'', ''B'', ''C''], [''A'', ''C'', ''D''],
                       [''A'', ''C'', ''D'']],
          iterations = 5, run_time = 5\<rparr>"
proof -
  note t = runs_agree[of 3 Optimal "(0, 1)" "[''A'', ''B'', ''C'', ''D'', ''A'']" "(2, 7)"]
  have c: "simulate Optimal (0, 1) [''A'', ''B'', ''C'', ''D'', ''A''] 3 =
     Inr \<lparr>physical_memory = [''A'', ''C'', ''D''], page_faults = 4,
          movements = [[''A''], [''A'', ''B''], [''A'', ''B'', ''C''], [''A'', ''C'', ''D''],
                       [''A'', ''C'', ''D'']],
          iterations = 5, run_time = 1\<rparr>"
    by (simp add: optimal_page_replacement_def optimal_step_def fifo_init_def snapshot_def
      make_report_def list_remove_def enumerate_eq_zip upt_rec Let_def)
  from simulate_clock[OF c, of "(2, 7)"] t c show ?thesis by simp
qed

lemma find_first:
  "find P xs = Some v \<Longrightarrow> P v \<and> (\<exists>as bs. xs = as @ v # bs \<and> (\<forall>a \<in> set as. \<not> P a))"
proof (induction xs)
  case Nil
  then show ?case by simp
next
  case (Cons x xs)
  show ?case
  proof (cases "P x")
    case True
    with Cons.prems have "v = x" by simp
    with True have "P v" "x # xs = [] @ v # xs" "\<forall>a \<in> set []. \<not> P a" by simp_all
    then show ?thesis by blast
  next
    case False
    with Cons obtain as bs where "P v" "xs = as @ v # bs" "\<forall>a \<in> set as. \<not> P a" by auto
    with False have "P v" "x # xs = (x # as) @ v # bs" "\<forall>a \<in> set (x # as). \<not> P a"
      by simp_all
    then show ?thesis by blast
  qed
qed

section \<open>Eviction\<close>

text \<open>
  C6. With at least one frame, before any iteration \<open>i\<close> of the LRU loop the dictionary
  \<^verbatim>\<open>page_indices\<close> maps each page to the last position before \<open>i\<close> at which it was referenced.
  When the reference misses and the frames are full, \<^verbatim>\<open>min\<close> returns a resident page whose
  last position is strictly smaller than that of every other resident page, and the new
  frames are the old ones without that page, followed by the new page. On the trace
  \<open>[A,B,C,A,D]\<close> with three frames the miss for D finds the frames \<open>[B,C,A]\<close> and evicts B; the
  final frames are \<open>[C,A,D]\<close> and the fault count is 4.
\<close>

theorem lru_evicts_least_recent:
  "(\<forall>(pages :: 'a list) frames i. 1 \<le> frames \<longrightarrow> i < length pages \<longrightarrow>
      (\<exists>s s'. lru_state_at pages frames i = Inr s \<and> lru_state_at pages frames (Suc i) = Inr s' \<and>
         (\<forall>p j. page_indices s p = Some j \<longleftrightarrow>
            (j < i \<and> pages ! j = p \<and> (\<forall>j'. j < j' \<and> j' < i \<longrightarrow> pages ! j' \<noteq> p))) \<and>
         (pages ! i \<notin> set (physical_memory s) \<and> \<not> int (length (physical_memory s)) < frames \<longrightarrow>
            (\<exists>v \<in> set (physical_memory s).
               py_min (physical_memory s) (page_indices s) = Inr v \<and>
               physical_memory s' = remove1 v (physical_memory s) @ [pages ! i] \<and>
               (\<forall>q \<in> set (physical_memory s). q \<noteq> v \<longrightarrow>
                  (\<exists>a b. page_indices s v = Some a \<and> page_indices s q = Some b \<and> a < b))))))
   \<and> lru_page_replacement clock [''A'', ''B'', ''C'', ''A'', ''D''] 3 =
       Inr \<lparr>physical_memory = [''C'', ''A'', ''D''], page_faults = 4,
            movements = [[''A''], [''A'', ''B''], [''A'', ''B'', ''C''], [''B'', ''C'', ''A''],
                         [''C'', ''A'', ''D'']],
            iterations = 5, run_time = snd clock - fst clock\<rparr>
   \<and> map_sum id (\<lambda>s. (physical_memory s, py_min (physical_memory s) (page_indices s)))
       (lru_state_at [''A'', ''B'', ''C'', ''A'', ''D''] 3 4)
       = Inr ([''B'', ''C'', ''A''], Inr ''B'')"
proof (intro conjI allI impI)
  fix pages :: "'a list" and frames :: int and i :: nat
  assume fr: "1 \<le> frames" and i: "i < length pages"
  from lru_miss_full[OF fr i]
  obtain s s' where s: "lru_state_at pages frames i = Inr s"
      "lru_state_at pages frames (Suc i) = Inr s'" "lru_inv pages (nat frames) i s"
      "pages ! i \<notin> set (physical_memory s) \<and> \<not> int (length (physical_memory s)) < frames \<longrightarrow>
        physical_memory s \<noteq> [] \<and>
        py_min (physical_memory s) (page_indices s) = Inr (hd (physical_memory s)) \<and>
        physical_memory s' = tl (physical_memory s) @ [pages ! i]"
    by blast
  let ?M = "physical_memory s"
  from s(3) have pos: "\<forall>p j. page_indices s p = Some j \<longleftrightarrow>
      (j < i \<and> pages ! j = p \<and> (\<forall>j'. j < j' \<and> j' < i \<longrightarrow> pages ! j' \<noteq> p))"
    and keys: "\<forall>p \<in> set ?M. \<exists>j. page_indices s p = Some j"
    and sorted: "sorted_wrt (<) (map (\<lambda>p. the (page_indices s p)) ?M)"
    unfolding lru_inv_def by blast+
  have victim: "\<exists>v \<in> set ?M.
       py_min ?M (page_indices s) = Inr v \<and> physical_memory s' = remove1 v ?M @ [pages ! i] \<and>
       (\<forall>q \<in> set ?M. q \<noteq> v \<longrightarrow>
          (\<exists>a b. page_indices s v = Some a \<and> page_indices s q = Some b \<and> a < b))"
    if miss: "pages ! i \<notin> set ?M \<and> \<not> int (length ?M) < frames"
  proof -
    from s(4) miss have ne: "?M \<noteq> []"
      and m: "py_min ?M (page_indices s) = Inr (hd ?M)"
      and n: "physical_memory s' = tl ?M @ [pages ! i]"
      by blast+
    from ne have hd_in: "hd ?M \<in> set ?M" and rm: "remove1 (hd ?M) ?M = tl ?M"
      by (cases ?M; simp)+
    have least: "\<exists>a b. page_indices s (hd ?M) = Some a \<and> page_indices s q = Some b \<and> a < b"
      if q: "q \<in> set ?M" "q \<noteq> hd ?M" for q
    proof -
      from keys hd_in q(1) obtain a b where
        ab: "page_indices s (hd ?M) = Some a" "page_indices s q = Some b"
        by blast
      from sorted_wrt_hd_least[OF sorted q] ab show ?thesis by simp
    qed
    from hd_in m n rm least show ?thesis by auto
  qed
  from s(1,2) pos victim
  show "\<exists>s s'. lru_state_at pages frames i = Inr s \<and> lru_state_at pages frames (Suc i) = Inr s' \<and>
         (\<forall>p j. page_indices s p = Some j \<longleftrightarrow>
            (j < i \<and> pages ! j = p \<and> (\<forall>j'. j < j' \<and> j' < i \<longrightarrow> pages ! j' \<noteq> p))) \<and>
         (pages ! i \<notin> set (physical_memory s) \<and> \<not> int (length (physical_memory s)) < frames \<longrightarrow>
            (\<exists>v \<in> set (physical_memory s).
               py_min (physical_memory s) (page_indices s) = Inr v \<and>
               physical_memory s' = remove1 v (physical_memory s) @ [pages ! i] \<and>
               (\<forall>q \<in> set (physical_memory s). q \<noteq> v \<longrightarrow>
                  (\<exists>a b. page_indices s v = Some a \<and> page_indices s q = Some b \<and> a < b))))"
    by blast
next
  show "lru_page_replacement clock [''A'', ''B'', ''C'', ''A'', ''D''] 3 =
       Inr \<lparr>physical_memory = [''C'', ''A'', ''D''], page_faults = 4,
            movements = [[''A''], [''A'', ''B''], [''A'', ''B'', ''C''], [''B'', ''C'', ''A''],
                         [''C'', ''A'', ''D'']],
            iterations = 5, run_time = snd clock - fst clock\<rparr>"
    by (simp add: lru_page_replacement_def lru_step_def lru_init_def snapshot_def
      make_report_def list_remove_def py_min_def enumerate_eq_zip upt_rec Let_def)
next
  show "map_sum id (\<lambda>s. (physical_memory s, py_min (physical_memory s) (page_indices s)))
       (lru_state_at [''A'', ''B'', ''C'', ''A'', ''D''] 3 4)
       = Inr ([''B'', ''C'', ''A''], Inr ''B'')"
    by code_simp
qed

theorem lru_evicts_least_recent_witness:
  "(1::int) \<le> 3 \<and> (4::nat) < length [''A'', ''B'', ''C'', ''A'', ''D''] \<and>
   map_sum id (\<lambda>s. (physical_memory s, map (page_indices s) [''B'', ''C'', ''A'']))
       (lru_state_at [''A'', ''B'', ''C'', ''A'', ''D''] 3 4)
     = Inr ([''B'', ''C'', ''A''], [Some 1, Some 2, Some 3]) \<and>
   map_sum id physical_memory (lru_state_at [''A'', ''B'', ''C'', ''A'', ''D''] 3 5)
     = Inr [''C'', ''A'', ''D'']"
proof -
  note t = lru_evicts_least_recent[of "(0, 1)", THEN conjunct1, rule_format,
      of 3 4 "[''A'', ''B'', ''C'', ''A'', ''D'']"]
  have c: "map_sum id (\<lambda>s. (physical_memory s, map (page_indices s) [''B'', ''C'', ''A'']))
       (lru_state_at [''A'', ''B'', ''C'', ''A'', ''D''] 3 4)
     = Inr ([''B'', ''C'', ''A''], [Some 1, Some 2, Some 3])"
    "map_sum id physical_memory (lru_state_at [''A'', ''B'', ''C'', ''A'', ''D''] 3 5)
     = Inr [''C'', ''A'', ''D'']"
    by code_simp+
  from t c show ?thesis by simp
qed

text \<open>
  C7. With at least one frame, when a reference of the Optimal loop misses and the frames
  are full, the inner loop returns a resident page \<open>v\<close>, and the new frames are the old ones
  without \<open>v\<close>, followed by the new page. If some resident page does not occur after the
  current position, \<open>v\<close> is the first such page of the list \<^verbatim>\<open>physical_memory\<close>; otherwise
  every resident page occurs again and none has its next occurrence later than \<open>v\<close>.
\<close>

theorem optimal_eviction_choice:
  assumes "1 \<le> frames" "i < length pages"
  shows "\<exists>s s'. optimal_state_at pages frames i = Inr s \<and>
     optimal_state_at pages frames (Suc i) = Inr s' \<and>
     (pages ! i \<notin> set (physical_memory s) \<and> \<not> int (length (physical_memory s)) < frames \<longrightarrow>
       (\<exists>v \<in> set (physical_memory s).
          choose_victim (drop (Suc i) pages) (- 1) None (physical_memory s) = Some v \<and>
          physical_memory s' = remove1 v (physical_memory s) @ [pages ! i] \<and>
          (if \<exists>f \<in> set (physical_memory s). f \<notin> set (drop (Suc i) pages)
           then v \<notin> set (drop (Suc i) pages) \<and>
             (\<exists>as bs. physical_memory s = as @ v # bs \<and> set as \<subseteq> set (drop (Suc i) pages))
           else \<forall>q \<in> set (physical_memory s). q \<in> set (drop (Suc i) pages) \<and>
             index_of (drop (Suc i) pages) q \<le> index_of (drop (Suc i) pages) v)))"
proof -
  let ?fut = "drop (Suc i) pages"
  from optimal_miss_full[OF assms]
  obtain s s' where s: "optimal_state_at pages frames i = Inr s"
      "optimal_state_at pages frames (Suc i) = Inr s'"
      "physical_memory s' = opt_next frames (physical_memory s) (pages ! i) ?fut"
    by blast
  let ?M = "physical_memory s"
  have victim: "\<exists>v \<in> set ?M. choose_victim ?fut (- 1) None ?M = Some v \<and>
          physical_memory s' = remove1 v ?M @ [pages ! i] \<and>
          (if \<exists>f \<in> set ?M. f \<notin> set ?fut
           then v \<notin> set ?fut \<and> (\<exists>as bs. ?M = as @ v # bs \<and> set as \<subseteq> set ?fut)
           else \<forall>q \<in> set ?M. q \<in> set ?fut \<and> index_of ?fut q \<le> index_of ?fut v)"
    if miss: "pages ! i \<notin> set ?M \<and> \<not> int (length ?M) < frames"
  proof -
    from miss assms(1) have ne: "?M \<noteq> []" by auto
    from choose_victim_start[OF ne, of ?fut]
    obtain v where v: "v \<in> set ?M" "choose_victim ?fut (- 1) None ?M = Some v"
        "case find (\<lambda>f. f \<notin> set ?fut) ?M of
           Some d \<Rightarrow> v = d
         | None \<Rightarrow> set ?M \<subseteq> set ?fut \<and> (\<forall>q \<in> set ?M. index_of ?fut q \<le> index_of ?fut v)"
      by blast
    have new: "physical_memory s' = remove1 v ?M @ [pages ! i]"
      using s(3) miss v(2) by (simp add: opt_next_def)
    have which: "if \<exists>f \<in> set ?M. f \<notin> set ?fut
           then v \<notin> set ?fut \<and> (\<exists>as bs. ?M = as @ v # bs \<and> set as \<subseteq> set ?fut)
           else \<forall>q \<in> set ?M. q \<in> set ?fut \<and> index_of ?fut q \<le> index_of ?fut v"
    proof (cases "find (\<lambda>f. f \<notin> set ?fut) ?M")
      case None
      then have "\<not> (\<exists>f \<in> set ?M. f \<notin> set ?fut)" by (simp add: find_None_iff)
      with v(3) None show ?thesis by auto
    next
      case (Some d)
      from find_first[OF Some] v(3) Some
      have "v \<notin> set ?fut" "\<exists>as bs. ?M = as @ v # bs \<and> (\<forall>a \<in> set as. \<not> a \<notin> set ?fut)"
        by simp_all
      moreover from this(1) v(1) have "\<exists>f \<in> set ?M. f \<notin> set ?fut" by blast
      ultimately show ?thesis by (simp add: subset_iff) blast
    qed
    from v(1,2) new which show ?thesis by blast
  qed
  from s(1,2) victim show ?thesis by blast
qed

theorem optimal_eviction_choice_witness:
  "(1::int) \<le> 3 \<and> (5::nat) < length [''A'', ''B'', ''C'', ''A'', ''B'', ''D'', ''A''] \<and>
   (3::nat) < length [''A'', ''B'', ''C'', ''D'', ''C'', ''A'', ''B''] \<and>
   map_sum id physical_memory
     (optimal_state_at [''A'', ''B'', ''C'', ''A'', ''B'', ''D'', ''A''] 3 5)
     = Inr [''A'', ''B'', ''C''] \<and>
   map_sum id physical_memory
     (optimal_state_at [''A'', ''B'', ''C'', ''A'', ''B'', ''D'', ''A''] 3 6)
     = Inr [''A'', ''C'', ''D''] \<and>
   map_sum id physical_memory
     (optimal_state_at [''A'', ''B'', ''C'', ''D'', ''C'', ''A'', ''B''] 3 3)
     = Inr [''A'', ''B'', ''C''] \<and>
   map_sum id physical_memory
     (optimal_state_at [''A'', ''B'', ''C'', ''D'', ''C'', ''A'', ''B''] 3 4)
     = Inr [''A'', ''C'', ''D'']"
proof -
  note t = optimal_eviction_choice[of 3 5 "[''A'', ''B'', ''C'', ''A'', ''B'', ''D'', ''A'']"]
    optimal_eviction_choice[of 3 3 "[''A'', ''B'', ''C'', ''D'', ''C'', ''A'', ''B'']"]
  have c: "map_sum id physical_memory
     (optimal_state_at [''A'', ''B'', ''C'', ''A'', ''B'', ''D'', ''A''] 3 5)
     = Inr [''A'', ''B'', ''C'']"
   "map_sum id physical_memory
     (optimal_state_at [''A'', ''B'', ''C'', ''A'', ''B'', ''D'', ''A''] 3 6)
     = Inr [''A'', ''C'', ''D'']"
   "map_sum id physical_memory
     (optimal_state_at [''A'', ''B'', ''C'', ''D'', ''C'', ''A'', ''B''] 3 3)
     = Inr [''A'', ''B'', ''C'']"
   "map_sum id physical_memory
     (optimal_state_at [''A'', ''B'', ''C'', ''D'', ''C'', ''A'', ''B''] 3 4)
     = Inr [''A'', ''C'', ''D'']"
    by code_simp+
  from t c show ?thesis by simp
qed

section \<open>The order of the LRU frames\<close>

text \<open>
  C10. With at least one frame, after any number \<open>i\<close> of iterations of the LRU loop every
  resident page is a key of \<^verbatim>\<open>page_indices\<close> and the list \<^verbatim>\<open>physical_memory\<close> is in strictly
  increasing order of last position, so that its first element is the least recently used
  resident page. When the next reference misses with full frames, \<^verbatim>\<open>min\<close> returns that first
  element and the eviction removes the front of the list.
\<close>

theorem lru_frames_in_recency_order:
  assumes "1 \<le> frames" "i \<le> length pages"
  shows "\<exists>s. lru_state_at pages frames i = Inr s \<and>
     (\<forall>p \<in> set (physical_memory s). \<exists>j. page_indices s p = Some j) \<and>
     sorted_wrt (<) (map (\<lambda>p. the (page_indices s p)) (physical_memory s)) \<and>
     (\<forall>q \<in> set (physical_memory s). q \<noteq> hd (physical_memory s) \<longrightarrow>
        the (page_indices s (hd (physical_memory s))) < the (page_indices s q)) \<and>
     (i < length pages \<and> pages ! i \<notin> set (physical_memory s) \<and>
      \<not> int (length (physical_memory s)) < frames \<longrightarrow>
        py_min (physical_memory s) (page_indices s) = Inr (hd (physical_memory s)) \<and>
        (\<exists>s'. lru_state_at pages frames (Suc i) = Inr s' \<and>
           physical_memory s' = tl (physical_memory s) @ [pages ! i]))"
proof -
  from lru_inv_at[OF assms]
  obtain s where s: "lru_state_at pages frames i = Inr s" "lru_inv pages (nat frames) i s"
    by blast
  let ?M = "physical_memory s"
  from s(2) have keys: "\<forall>p \<in> set ?M. \<exists>j. page_indices s p = Some j"
    and sorted: "sorted_wrt (<) (map (\<lambda>p. the (page_indices s p)) ?M)"
    unfolding lru_inv_def by blast+
  have least: "\<forall>q \<in> set ?M. q \<noteq> hd ?M \<longrightarrow>
      the (page_indices s (hd ?M)) < the (page_indices s q)"
    using sorted_wrt_hd_least[OF sorted] by blast
  have evict: "py_min ?M (page_indices s) = Inr (hd ?M) \<and>
        (\<exists>s'. lru_state_at pages frames (Suc i) = Inr s' \<and>
           physical_memory s' = tl ?M @ [pages ! i])"
    if "i < length pages \<and> pages ! i \<notin> set ?M \<and> \<not> int (length ?M) < frames"
    using lru_miss_full[OF assms(1), of i pages] that s(1) by auto
  from s(1) keys sorted least evict show ?thesis by blast
qed

theorem lru_frames_in_recency_order_witness:
  "(1::int) \<le> 3 \<and> (4::nat) \<le> length [''A'', ''B'', ''C'', ''A'', ''D''] \<and>
   map_sum id (\<lambda>s. (physical_memory s, map (\<lambda>p. the (page_indices s p)) (physical_memory s),
       py_min (physical_memory s) (page_indices s)))
     (lru_state_at [''A'', ''B'', ''C'', ''A'', ''D''] 3 4)
     = Inr ([''B'', ''C'', ''A''], [1, 2, 3], Inr ''B'') \<and>
   map_sum id (\<lambda>s. (physical_memory s, map (\<lambda>p. the (page_indices s p)) (physical_memory s)))
     (lru_state_at [''A'', ''B'', ''C'', ''A'', ''D''] 3 5)
     = Inr ([''C'', ''A'', ''D''], [2, 3, 4])"
proof -
  note t = lru_frames_in_recency_order[of 3 4 "[''A'', ''B'', ''C'', ''A'', ''D'']"]
  have c: "map_sum id (\<lambda>s. (physical_memory s,
       map (\<lambda>p. the (page_indices s p)) (physical_memory s),
       py_min (physical_memory s) (page_indices s)))
     (lru_state_at [''A'', ''B'', ''C'', ''A'', ''D''] 3 4)
     = Inr ([''B'', ''C'', ''A''], [1, 2, 3], Inr ''B'')"
   "map_sum id (\<lambda>s. (physical_memory s, map (\<lambda>p. the (page_indices s p)) (physical_memory s)))
     (lru_state_at [''A'', ''B'', ''C'', ''A'', ''D''] 3 5)
     = Inr ([''C'', ''A'', ''D''], [2, 3, 4])"
    by code_simp+
  from t c show ?thesis by simp
qed

section \<open>Optimal against FIFO and LRU\<close>

text \<open>
  C8. With at least one frame, the three simulations of the same trace all return a report,
  and the fault count of \<^verbatim>\<open>optimal_page_replacement\<close> is at most that of
  \<^verbatim>\<open>fifo_page_replacement\<close> and at most that of \<^verbatim>\<open>lru_page_replacement\<close>.
\<close>

theorem optimal_fewest_faults:
  assumes "1 \<le> frames"
  shows "\<exists>ro rf rl. optimal_page_replacement clock pages frames = Inr ro \<and>
     fifo_page_replacement clock pages frames = Inr rf \<and>
     lru_page_replacement clock pages frames = Inr rl \<and>
     page_faults ro \<le> page_faults rf \<and> page_faults ro \<le> page_faults rl"
  using optimal_le_policy[OF assms, of clock pages FIFO clock]
    optimal_le_policy[OF assms, of clock pages LRU clock]
  by auto

theorem optimal_fewest_faults_witness:
  "(1::int) \<le> 3 \<and>
   map_sum id page_faults (optimal_page_replacement (0, 1)
     [''A'', ''B'', ''C'', ''D'', ''A'', ''B'', ''E'', ''A'', ''B'', ''C'', ''D'', ''E''] 3) = Inr 7 \<and>
   map_sum id page_faults (fifo_page_replacement (0, 1)
     [''A'', ''B'', ''C'', ''D'', ''A'', ''B'', ''E'', ''A'', ''B'', ''C'', ''D'', ''E''] 3) = Inr 9 \<and>
   map_sum id page_faults (lru_page_replacement (0, 1)
     [''A'', ''B'', ''C'', ''D'', ''A'', ''B'', ''E'', ''A'', ''B'', ''C'', ''D'', ''E''] 3) = Inr 10"
proof -
  note t = optimal_fewest_faults[of 3 "(0, 1)"
      "[''A'', ''B'', ''C'', ''D'', ''A'', ''B'', ''E'', ''A'', ''B'', ''C'', ''D'', ''E'']"]
  have c: "map_sum id page_faults (optimal_page_replacement (0, 1)
     [''A'', ''B'', ''C'', ''D'', ''A'', ''B'', ''E'', ''A'', ''B'', ''C'', ''D'', ''E''] 3) = Inr 7"
   "map_sum id page_faults (fifo_page_replacement (0, 1)
     [''A'', ''B'', ''C'', ''D'', ''A'', ''B'', ''E'', ''A'', ''B'', ''C'', ''D'', ''E''] 3) = Inr 9"
   "map_sum id page_faults (lru_page_replacement (0, 1)
     [''A'', ''B'', ''C'', ''D'', ''A'', ''B'', ''E'', ''A'', ''B'', ''C'', ''D'', ''E''] 3) = Inr 10"
    by code_simp+
  from t c show ?thesis by simp
qed

end
